theory Spec2Isabelle
  imports Complex_Main "HOL-Library.AList" "HOL-Library.Multiset" "HOL-Library.Sublist"
    "HOL-Library.Product_Lexorder"
begin

section \<open>The bulk fetcher\<close>

text \<open>
  The answer of one request \<^verbatim>\<open>supabase.from(t).select("*").range(a, b)\<close>: the
  object \<^verbatim>\<open>{ data, error }\<close>. Either field may be null.
\<close>

record ('e, 'r) response =
  data :: "'r list option"
  error :: "'e option"

text \<open>
  \<^verbatim>\<open>fetchAllRows\<close>, lines 30 to 51. The client is a parameter: it takes the table
  name and the two inclusive bounds of the range. The loop is \<^verbatim>\<open>while (true)\<close>, so
  it is a partial function: not returning is the value \<open>None\<close>. A \<^verbatim>\<open>throw\<close> is the
  value \<open>Inl\<close>. The requests issued so far are kept in a log beside the two loop
  variables \<^verbatim>\<open>allRows\<close> and \<^verbatim>\<open>from\<close>, so that the run can be observed from outside.
\<close>

partial_function (option) fetchLoop ::
  "(string \<Rightarrow> int \<Rightarrow> int \<Rightarrow> ('e, 'r) response) \<Rightarrow> string \<Rightarrow> int \<Rightarrow>
   'r list \<Rightarrow> int \<Rightarrow> (int \<times> int) list \<Rightarrow> ((int \<times> int) list \<times> ('e + 'r list)) option"
where
  "fetchLoop supabase tableName chunkSize allRows from reqs =
     (let resp = supabase tableName from (from + chunkSize - 1);
          reqs' = reqs @ [(from, from + chunkSize - 1)]
      in case error resp of
           Some e \<Rightarrow> Some (reqs', Inl e)
         | None \<Rightarrow>
             (case data resp of
                None \<Rightarrow> Some (reqs', Inr allRows)
              | Some d \<Rightarrow>
                  if length d = 0 then Some (reqs', Inr allRows)
                  else if int (length d) < chunkSize then Some (reqs', Inr (allRows @ d))
                  else fetchLoop supabase tableName chunkSize (allRows @ d) (from + chunkSize) reqs'))"

definition fetchAllRows ::
  "(string \<Rightarrow> int \<Rightarrow> int \<Rightarrow> ('e, 'r) response) \<Rightarrow> string \<Rightarrow> int \<Rightarrow>
   ((int \<times> int) list \<times> ('e + 'r list)) option" where
  "fetchAllRows supabase tableName chunkSize = fetchLoop supabase tableName chunkSize [] 0 []"

text \<open>The default page size of the source, \<^verbatim>\<open>chunkSize = 1000\<close>.\<close>

definition fetchAllRowsDefault ::
  "(string \<Rightarrow> int \<Rightarrow> int \<Rightarrow> ('e, 'r) response) \<Rightarrow> string \<Rightarrow>
   ((int \<times> int) list \<times> ('e + 'r list)) option" where
  "fetchAllRowsDefault supabase tableName = fetchAllRows supabase tableName 1000"

text \<open>
  Modelled from the spec: the upstream service, which is not part of the repository. It
  holds for each resource its rows in order, answers a range request with the rows at
  the positions \<open>a\<close> to \<open>b\<close> inclusive, never more than its row cap, and reports no
  error.
\<close>

definition rangeServer ::
  "(string \<Rightarrow> 'r list) \<Rightarrow> nat \<Rightarrow> string \<Rightarrow> int \<Rightarrow> int \<Rightarrow> ('e, 'r) response" where
  "rangeServer tbl cap t a b =
     \<lparr> data = Some (take (min cap (nat (b - a + 1))) (drop (nat a) (tbl t))), error = None \<rparr>"

text \<open>The range the loop asks for in its \<open>k\<close>-th round (counted from 0).\<close>

definition pageRange :: "int \<Rightarrow> nat \<Rightarrow> int \<times> int" where
  "pageRange chunkSize k = (int k * chunkSize, int k * chunkSize + chunkSize - 1)"

section \<open>JavaScript values used by the aggregator\<close>

text \<open>
  Numbers are the IEEE 754 doubles of the language: NaN, the two infinities, and the
  finite doubles, each finite double given by the real number it denotes. The two zeros
  are one value, the number 0: they are equal as numbers, and the functions below never
  divide by a zero.
\<close>

datatype jsnum = NaN | NegInf | Fin real | PosInf

text \<open>
  Rounding to the nearest double. \<open>roundEven\<close> is the nearest integer, a tie going to
  the even one. \<open>expo x\<close> is the binary exponent of \<open>x\<close>, between \<open>-1022\<close> (the
  exponent of the subnormal numbers and of zero) and \<open>1023\<close>: it is found by halving
  or doubling \<open>\<bar>x\<bar>\<close> until it lies in \<open>[1, 2)\<close>, at most 1023 or 1022 times. \<open>fl x\<close>
  rounds \<open>x\<close> to a whole multiple \<open>m\<close> of \<open>2^(expo x - 52)\<close>, that is to 53
  significant bits. The largest double is \<open>(2^53 - 1) * 2^971\<close>: at the top exponent
  a multiple \<open>m\<close> of magnitude \<open>2^53\<close> or more, a result of magnitude \<open>2^1024\<close> or
  more, is an infinity. \<open>isDouble x\<close>: the real \<open>x\<close> is a double.
\<close>

definition roundEven :: "real \<Rightarrow> int" where
  "roundEven y = (let f = \<lfloor>y\<rfloor>; d = y - of_int f
                  in if d < 1 / 2 then f else if 1 / 2 < d then f + 1 else if even f then f else f + 1)"

primrec expoUp :: "nat \<Rightarrow> real \<Rightarrow> int \<Rightarrow> int" where
  "expoUp 0 x e = e"
| "expoUp (Suc n) x e = (if x < 2 then e else expoUp n (x / 2) (e + 1))"

primrec expoDown :: "nat \<Rightarrow> real \<Rightarrow> int \<Rightarrow> int" where
  "expoDown 0 x e = e"
| "expoDown (Suc n) x e = (if 1 \<le> x then e else expoDown n (2 * x) (e - 1))"

definition expo :: "real \<Rightarrow> int" where
  "expo x = (if x = 0 then - 1022
             else if 1 \<le> \<bar>x\<bar> then expoUp 1023 \<bar>x\<bar> 0 else expoDown 1022 \<bar>x\<bar> 0)"

definition fl :: "real \<Rightarrow> jsnum" where
  "fl x = (let e = expo x; q = 2 powi (e - 52); m = roundEven (x / q)
           in if e = 1023 \<and> 2 ^ 53 \<le> \<bar>m\<bar> then (if 0 < x then PosInf else NegInf)
              else Fin (of_int m * q))"

definition isDouble :: "real \<Rightarrow> bool" where
  "isDouble x = (fl x = Fin x)"

text \<open>
  The operators \<^verbatim>\<open>+\<close>, \<^verbatim>\<open>-\<close> and \<^verbatim>\<open>/\<close> on numbers: the exact result, rounded. A zero
  divisor is taken as \<open>+0\<close>.
\<close>

definition jsNeg :: "jsnum \<Rightarrow> jsnum" where
  "jsNeg x = (case x of NaN \<Rightarrow> NaN | NegInf \<Rightarrow> PosInf | Fin r \<Rightarrow> Fin (- r) | PosInf \<Rightarrow> NegInf)"

fun jsAdd :: "jsnum \<Rightarrow> jsnum \<Rightarrow> jsnum" where
  "jsAdd (Fin a) (Fin b) = fl (a + b)"
| "jsAdd NaN y = NaN"
| "jsAdd x NaN = NaN"
| "jsAdd PosInf NegInf = NaN"
| "jsAdd NegInf PosInf = NaN"
| "jsAdd PosInf y = PosInf"
| "jsAdd x PosInf = PosInf"
| "jsAdd NegInf y = NegInf"
| "jsAdd x NegInf = NegInf"

definition jsSub :: "jsnum \<Rightarrow> jsnum \<Rightarrow> jsnum" where
  "jsSub x y = jsAdd x (jsNeg y)"

fun jsDiv :: "jsnum \<Rightarrow> jsnum \<Rightarrow> jsnum" where
  "jsDiv (Fin a) (Fin b) =
     (if b = 0 then (if a = 0 then NaN else if 0 < a then PosInf else NegInf) else fl (a / b))"
| "jsDiv NaN y = NaN"
| "jsDiv x NaN = NaN"
| "jsDiv PosInf (Fin b) = (if 0 \<le> b then PosInf else NegInf)"
| "jsDiv NegInf (Fin b) = (if 0 \<le> b then NegInf else PosInf)"
| "jsDiv (Fin a) y = Fin 0"
| "jsDiv x y = NaN"

text \<open>
  The field \<^verbatim>\<open>ctc\<close> of an offer as it arrives: absent (missing, null or undefined), a
  finite number (or a text that \<^verbatim>\<open>Number\<close> reads as that number), or any other value,
  which \<^verbatim>\<open>Number\<close> turns into NaN.
\<close>

datatype ctc_value = CtcMissing | CtcNumber real | CtcOther

text \<open>\<^verbatim>\<open>Number(x) || 0\<close>: NaN and 0 are falsy.\<close>

definition numberOrZero :: "ctc_value \<Rightarrow> real" where
  "numberOrZero x = (case x of CtcMissing \<Rightarrow> 0 | CtcNumber r \<Rightarrow> (if r = 0 then 0 else r) | CtcOther \<Rightarrow> 0)"

text \<open>
  \<^verbatim>\<open>new Date(p.created_at)\<close> read in the local time zone: an invalid date, or a date
  with its \<^verbatim>\<open>getFullYear()\<close> and its \<^verbatim>\<open>getMonth()\<close> (January is 0).
\<close>

datatype jsdate = InvalidDate | LocalDate int nat

text \<open>Decimal digits of a number, as a template literal prints an integer.\<close>

definition digitChar :: "nat \<Rightarrow> char" where
  "digitChar d = char_of (48 + d)"

fun showNat :: "nat \<Rightarrow> string" where
  "showNat n = (if n < 10 then [digitChar n] else showNat (n div 10) @ [digitChar (n mod 10)])"

declare showNat.simps [simp del]

definition showInt :: "int \<Rightarrow> string" where
  "showInt i = (if i < 0 then CHR ''-'' # showNat (nat (- i)) else showNat (nat i))"

text \<open>
  One locale's answer to \<^verbatim>\<open>toLocaleString("default", {month: "short", year: "numeric"})\<close>,
  the one of en-US. The aggregator takes the formatter as a parameter, since the label
  depends on the locale of the browser. The year is printed as the year of its era,
  without a sign: the year 0 of \<^verbatim>\<open>getFullYear\<close> is the year 1 (before the common era),
  the year \<open>-1\<close> is the year 2.
\<close>

definition monthNames :: "string list" where
  "monthNames = [''Jan'', ''Feb'', ''Mar'', ''Apr'', ''May'', ''Jun'',
                 ''Jul'', ''Aug'', ''Sep'', ''Oct'', ''Nov'', ''Dec'']"

definition enUSLabel :: "jsdate \<Rightarrow> string" where
  "enUSLabel d = (case d of
      InvalidDate \<Rightarrow> ''Invalid Date''
    | LocalDate y m \<Rightarrow>
        (if m < 12 then monthNames ! m else ''???'') @ '' '' @ showInt (if 1 \<le> y then y else 1 - y))"

text \<open>
  Strings are lists of characters; a character is a code unit, and the type holds the
  code units below 256. \<^verbatim>\<open>s.toLowerCase()\<close> is a built-in of the engine, and
  \<^verbatim>\<open>filterAndSort\<close> below takes it as a parameter. On the code units below 256 it is
  \<open>toLowerCaseLatin1\<close>: the letters A to Z and the letters from U+00C0 to U+00DE (the
  multiplication sign U+00D7 apart) move up by 32, every other code unit stays.
\<close>

definition lowerChar :: "char \<Rightarrow> char" where
  "lowerChar c =
     (let n = (of_char c :: int)
      in if (65 \<le> n \<and> n \<le> 90) \<or> (192 \<le> n \<and> n \<le> 222 \<and> n \<noteq> 215) then char_of (n + 32) else c)"

definition toLowerCaseLatin1 :: "string \<Rightarrow> string" where
  "toLowerCaseLatin1 s = map lowerChar s"

text \<open>\<^verbatim>\<open>s.includes(t)\<close>: \<open>t\<close> occurs in \<open>s\<close> as a contiguous piece.\<close>

primrec includes_str :: "string \<Rightarrow> string \<Rightarrow> bool" where
  "includes_str [] t = (t = [])"
| "includes_str (c # s) t = (prefix t (c # s) \<or> includes_str s t)"

text \<open>\<^verbatim>\<open>s.substring(a, b)\<close> for non-negative integer arguments.\<close>

definition substring :: "string \<Rightarrow> nat \<Rightarrow> nat \<Rightarrow> string" where
  "substring s a b = (let lo = min a b; hi = max a b in take (hi - lo) (drop lo s))"

text \<open>
  \<^verbatim>\<open>[...xs].sort(cmp)\<close>: the stable sort of the language, by insertion. The answer \<open>v\<close>
  of the comparator puts the first element after the second only if \<open>v > 0\<close>; NaN counts
  as 0. An element goes before the first one it is not put after, and the elements are
  inserted from the last to the first, so that equal elements keep their order.
\<close>

definition sortBefore :: "jsnum \<Rightarrow> bool" where
  "sortBefore v = (case v of NaN \<Rightarrow> True | NegInf \<Rightarrow> True | Fin r \<Rightarrow> r \<le> 0 | PosInf \<Rightarrow> False)"

primrec insort_cmp :: "('a \<Rightarrow> 'a \<Rightarrow> jsnum) \<Rightarrow> 'a \<Rightarrow> 'a list \<Rightarrow> 'a list" where
  "insort_cmp cmp x [] = [x]"
| "insort_cmp cmp x (y # ys) = (if sortBefore (cmp x y) then x # y # ys else y # insort_cmp cmp x ys)"

definition js_sort :: "('a \<Rightarrow> 'a \<Rightarrow> jsnum) \<Rightarrow> 'a list \<Rightarrow> 'a list" where
  "js_sort cmp xs = foldr (insort_cmp cmp) xs []"

text \<open>
  \<^verbatim>\<open>Number(x.toFixed(2))\<close>. \<^verbatim>\<open>toFixed\<close> prints NaN and the infinities by name, and a
  number of magnitude \<open>10^21\<close> or more in full; \<^verbatim>\<open>Number\<close> reads each of them back as
  it was. Below \<open>10^21\<close> \<^verbatim>\<open>toFixed(2)\<close> prints the multiple of 1/100 nearest to the exact
  value of the double, the larger one at a tie, after rounding the absolute value; then
  \<^verbatim>\<open>Number\<close> reads the decimal text as the nearest double.
\<close>

definition toFixed2 :: "jsnum \<Rightarrow> jsnum" where
  "toFixed2 v =
     (case v of
        Fin x \<Rightarrow>
          if 10 ^ 21 \<le> \<bar>x\<bar> then Fin x
          else if x < 0 then fl (- (of_int \<lfloor>- x * 100 + 1 / 2\<rfloor> / 100))
          else fl (of_int \<lfloor>x * 100 + 1 / 2\<rfloor> / 100)
      | _ \<Rightarrow> v)"

text \<open>
  A plain object \<^verbatim>\<open>{}\<close> used as a dictionary: its own properties in the order of their
  creation. A lookup \<^verbatim>\<open>obj[k]\<close> finds an own property, and otherwise a member that
  \<^verbatim>\<open>{}\<close> inherits from \<^verbatim>\<open>Object.prototype\<close>: \<open>objectPrototypeNames\<close> are the names of
  these members; each of them is a function or an object, hence truthy.
  \<^verbatim>\<open>if (!obj[k]) obj[k] = v0\<close> followed by an update of the fields of \<^verbatim>\<open>obj[k]\<close> in
  place is \<open>upsert\<close>; the values stored are objects, hence truthy. For a key that names
  an inherited member and is not an own property, the test finds the member, no
  property is created, and the update writes on the inherited member and not on the
  dictionary, which stays as it was. What these writes leave on the inherited member
  is not followed further.
\<close>

type_synonym 'v jsobject = "(string \<times> 'v) list"

definition objectPrototypeNames :: "string list" where
  "objectPrototypeNames =
     [''constructor'', ''__defineGetter__'', ''__defineSetter__'', ''hasOwnProperty'',
      ''__lookupGetter__'', ''__lookupSetter__'', ''isPrototypeOf'', ''propertyIsEnumerable'',
      ''toString'', ''valueOf'', ''__proto__'', ''toLocaleString'']"

definition upsert :: "string \<Rightarrow> 'v \<Rightarrow> ('v \<Rightarrow> 'v) \<Rightarrow> 'v jsobject \<Rightarrow> 'v jsobject" where
  "upsert k v0 f obj =
     (if map_of obj k = None \<and> k \<in> set objectPrototypeNames then obj
      else AList.map_entry k f (if map_of obj k = None then obj @ [(k, v0)] else obj))"

text \<open>
  \<^verbatim>\<open>Object.values(obj)\<close>: the keys that are array indices (canonical decimal numbers
  below \<open>2^32 - 1\<close>) come first in ascending order, then the other keys in the order
  of their creation.
\<close>

definition parseNat :: "string \<Rightarrow> int" where
  "parseNat s = foldl (\<lambda>n c. 10 * n + ((of_char c :: int) - 48)) 0 s"

definition isArrayIndex :: "string \<Rightarrow> bool" where
  "isArrayIndex s = (s \<noteq> [] \<and> list_all (\<lambda>c. 48 \<le> (of_char c :: int) \<and> (of_char c :: int) \<le> 57) s
     \<and> (s = ''0'' \<or> hd s \<noteq> CHR ''0'') \<and> parseNat s < 4294967295)"

definition objectValues :: "'v jsobject \<Rightarrow> 'v list" where
  "objectValues obj =
     map snd (sort_key (\<lambda>kv. parseNat (fst kv)) (filter (\<lambda>kv. isArrayIndex (fst kv)) obj)
              @ filter (\<lambda>kv. \<not> isArrayIndex (fst kv)) obj)"

section \<open>The aggregator\<close>

text \<open>An offer record \<^verbatim>\<open>p\<close>, with the fields the aggregator reads.\<close>

record offer =
  offer_company :: "string option"
  offer_reg_no :: "string option"
  offer_ctc :: ctc_value
  offer_created_at :: jsdate

text \<open>
  An aggregate object. The three aggregations build objects with different properties;
  a property an object does not have is \<open>None\<close> (\<^verbatim>\<open>undefined\<close> when read).
\<close>

record stat =
  company :: "string option"
  branch :: "string option"
  total :: int
  month :: "string option"
  ctc :: "real option"
  ctcRange :: "string option"
  ctcValues :: "real list option"
  avg :: "jsnum option"
  median :: "jsnum option"

definition noProps :: stat where
  "noProps = \<lparr> company = None, branch = None, total = 0, month = None, ctc = None,
               ctcRange = None, ctcValues = None, avg = None, median = None \<rparr>"

text \<open>
  \<^verbatim>\<open>calcStats\<close>, lines 19 to 27. The result \<^verbatim>\<open>{ avg, median }\<close> is a record of its own.
  The values are finite doubles; the sum starts at 0 and adds them from left to right.
\<close>

record avg_median =
  avg_of :: jsnum
  median_of :: jsnum

definition calcStats :: "real list option \<Rightarrow> avg_median" where
  "calcStats values =
     (case values of
        None \<Rightarrow> \<lparr> avg_of = Fin 0, median_of = Fin 0 \<rparr>
      | Some vs \<Rightarrow>
          if length vs = 0 then \<lparr> avg_of = Fin 0, median_of = Fin 0 \<rparr>
          else
            let avg = jsDiv (foldl (\<lambda>a b. jsAdd a (Fin b)) (Fin 0) vs) (Fin (real (length vs)));
                sorted = js_sort (\<lambda>a b. jsSub (Fin a) (Fin b)) vs;
                mid = length sorted div 2;
                median = (if length sorted mod 2 \<noteq> 0 then Fin (sorted ! mid)
                          else jsDiv (jsAdd (Fin (sorted ! (mid - 1))) (Fin (sorted ! mid))) (Fin 2))
            in \<lparr> avg_of = toFixed2 avg, median_of = toFixed2 median \<rparr>)"

text \<open>\<^verbatim>\<open>getBranch\<close>, line 89. Null, undefined and the empty string are falsy.\<close>

definition getBranch :: "string option \<Rightarrow> string" where
  "getBranch reg = (case reg of None \<Rightarrow> ''UNK''
                    | Some s \<Rightarrow> if s = [] then ''UNK'' else substring s 2 5)"

text \<open>\<^verbatim>\<open>getCtcRange\<close>, lines 91 to 98.\<close>

definition getCtcRange :: "real \<Rightarrow> string" where
  "getCtcRange c =
     (if c < 5 then ''<5''
      else if c < 10 then ''5-10''
      else if c < 15 then ''10-15''
      else if c < 20 then ''15-20''
      else if c < 30 then ''20+''
      else ''30+'')"

text \<open>\<^verbatim>\<open>companyStats\<close>, lines 100 to 122: the body of the \<^verbatim>\<open>forEach\<close>, then the loop.\<close>

definition companyKey :: "offer \<Rightarrow> string" where
  "companyKey p = (case offer_company p of None \<Rightarrow> ''Unknown''
                   | Some s \<Rightarrow> if s = [] then ''Unknown'' else s)"

definition companyStep :: "(jsdate \<Rightarrow> string) \<Rightarrow> stat jsobject \<Rightarrow> offer \<Rightarrow> stat jsobject" where
  "companyStep toLocaleString stats p =
     (let comp = companyKey p;
          c = numberOrZero (offer_ctc p)
      in upsert comp
           (noProps \<lparr> company := Some comp, total := 0,
                      month := Some (toLocaleString (offer_created_at p)),
                      ctc := Some 0, ctcRange := Some [] \<rparr>)
           (\<lambda>r. r \<lparr> total := total r + 1, ctc := Some c, ctcRange := Some (getCtcRange c) \<rparr>)
           stats)"

definition companyStats :: "(jsdate \<Rightarrow> string) \<Rightarrow> offer list \<Rightarrow> stat list" where
  "companyStats toLocaleString placements =
     objectValues (foldl (companyStep toLocaleString) [] placements)"

text \<open>
  \<^verbatim>\<open>branchStats\<close>, lines 124 to 136. A branch code has at most 3 characters, so it
  never names an inherited member.
\<close>

definition branchStep :: "stat jsobject \<Rightarrow> offer \<Rightarrow> stat jsobject" where
  "branchStep stats p =
     (let b = getBranch (offer_reg_no p)
      in upsert b
           (noProps \<lparr> branch := Some b, total := 0, ctcValues := Some [] \<rparr>)
           (\<lambda>r. r \<lparr> total := total r + 1,
                    ctcValues := map_option (\<lambda>vs. vs @ [numberOrZero (offer_ctc p)]) (ctcValues r) \<rparr>)
           stats)"

definition branchStats :: "offer list \<Rightarrow> stat list" where
  "branchStats placements =
     map (\<lambda>b. let s = calcStats (ctcValues b)
              in b \<lparr> avg := Some (avg_of s), median := Some (median_of s) \<rparr>)
         (objectValues (foldl branchStep [] placements))"

text \<open>
  \<^verbatim>\<open>monthlyTrends\<close>, lines 138 to 151. The key is the text \<^verbatim>\<open>`${year}-${month + 1}`\<close>;
  it ends in a digit or is \<^verbatim>\<open>NaN-NaN\<close>, so it never names an inherited member.
\<close>

definition monthKey :: "jsdate \<Rightarrow> string" where
  "monthKey d = (case d of
      InvalidDate \<Rightarrow> ''NaN-NaN''
    | LocalDate y m \<Rightarrow> showInt y @ ''-'' @ showNat (m + 1))"

definition monthlyStep :: "(jsdate \<Rightarrow> string) \<Rightarrow> stat jsobject \<Rightarrow> offer \<Rightarrow> stat jsobject" where
  "monthlyStep toLocaleString stats p =
     (let d = offer_created_at p;
          key = monthKey d;
          label = toLocaleString d
      in upsert key (noProps \<lparr> month := Some label, total := 0 \<rparr>)
           (\<lambda>r. r \<lparr> total := total r + 1 \<rparr>) stats)"

definition monthlyObject :: "(jsdate \<Rightarrow> string) \<Rightarrow> offer list \<Rightarrow> stat jsobject" where
  "monthlyObject toLocaleString placements = foldl (monthlyStep toLocaleString) [] placements"

definition monthlyTrends :: "(jsdate \<Rightarrow> string) \<Rightarrow> offer list \<Rightarrow> stat list" where
  "monthlyTrends toLocaleString placements =
     objectValues (monthlyObject toLocaleString placements)"

text \<open>
  \<^verbatim>\<open>filterAndSort\<close>, lines 153 to 173. The component state it reads (\<^verbatim>\<open>search\<close>,
  \<^verbatim>\<open>sortBy\<close>, \<^verbatim>\<open>selectedRange\<close>) is passed in, and so is the built-in \<^verbatim>\<open>toLowerCase\<close>
  of the engine. Calling \<^verbatim>\<open>toLowerCase\<close> on a property that the object does not have
  throws a TypeError. \<^verbatim>\<open>x || 0\<close> on a number or \<^verbatim>\<open>undefined\<close> is \<open>orZero\<close>: undefined,
  NaN and 0 are falsy. The counts are whole numbers.
\<close>

record view_state =
  search :: string
  sortBy :: string
  selectedRange :: string

datatype js_error = TypeError

definition orZero :: "jsnum option \<Rightarrow> jsnum" where
  "orZero x = (case x of None \<Rightarrow> Fin 0 | Some v \<Rightarrow> (if v = NaN \<or> v = Fin 0 then Fin 0 else v))"

fun filterSearch ::
  "(string \<Rightarrow> string) \<Rightarrow> (stat \<Rightarrow> string option) \<Rightarrow> string \<Rightarrow> stat list \<Rightarrow> js_error + stat list" where
  "filterSearch toLowerCase key s [] = Inr []"
| "filterSearch toLowerCase key s (d # ds) =
     (case key d of
        None \<Rightarrow> Inl TypeError
      | Some k \<Rightarrow>
          (case filterSearch toLowerCase key s ds of
             Inl e \<Rightarrow> Inl e
           | Inr r \<Rightarrow> Inr (if includes_str (toLowerCase k) (toLowerCase s) then d # r else r)))"

definition filterAndSort ::
  "(string \<Rightarrow> string) \<Rightarrow> view_state \<Rightarrow> stat list \<Rightarrow> string \<Rightarrow> js_error + stat list" where
  "filterAndSort toLowerCase st dat type =
     (case (if search st \<noteq> []
            then filterSearch toLowerCase (\<lambda>d. if type = ''company'' then company d else branch d)
                   (search st) dat
            else Inr dat) of
        Inl e \<Rightarrow> Inl e
      | Inr filtered1 \<Rightarrow>
          let filtered =
                (if type = ''company'' \<and> selectedRange st \<noteq> ''all''
                 then filter (\<lambda>d. ctcRange d = Some (selectedRange st)) filtered1
                 else filtered1)
          in if sortBy st = ''students''
               then Inr (js_sort (\<lambda>a b. jsSub (Fin (of_int (total b))) (Fin (of_int (total a)))) filtered)
             else if sortBy st = ''avg''
               then Inr (js_sort (\<lambda>a b. jsSub (orZero (avg b)) (orZero (avg a))) filtered)
             else if sortBy st = ''median''
               then Inr (js_sort (\<lambda>a b. jsSub (orZero (median b)) (orZero (median a))) filtered)
             else Inr filtered)"

section \<open>Notions the statements below use\<close>

text \<open>The offers of one company, in input order.\<close>

definition offersOf :: "string \<Rightarrow> offer list \<Rightarrow> offer list" where
  "offersOf k placements = filter (\<lambda>p. companyKey p = k) placements"

text \<open>
  What the aggregation by company holds for the key \<open>k\<close> after the loop: the number of
  the offers of \<open>k\<close>, the label of the month of the first of them, and the
  compensation and its bucket of the last of them.
\<close>

definition companySummary :: "(jsdate \<Rightarrow> string) \<Rightarrow> offer list \<Rightarrow> string \<Rightarrow> stat" where
  "companySummary toLocaleString placements k =
     (let ps = offersOf k placements; c = numberOrZero (offer_ctc (last ps))
      in noProps \<lparr> company := Some k, total := int (length ps),
                    month := Some (toLocaleString (offer_created_at (hd ps))),
                    ctc := Some c, ctcRange := Some (getCtcRange c) \<rparr>)"

text \<open>Sample offers for the examples.\<close>

definition twoMonths :: "offer list" where
  "twoMonths =
     [\<lparr> offer_company = Some ''A'', offer_reg_no = None, offer_ctc = CtcNumber 3,
        offer_created_at = LocalDate 2025 0 \<rparr>,
      \<lparr> offer_company = Some ''A'', offer_reg_no = None, offer_ctc = CtcNumber 7,
        offer_created_at = LocalDate 2025 1 \<rparr>]"



definition januaries :: "offer list" where
  "januaries =
     [\<lparr> offer_company = None, offer_reg_no = None, offer_ctc = CtcMissing,
        offer_created_at = LocalDate 2024 0 \<rparr>,
      \<lparr> offer_company = None, offer_reg_no = None, offer_ctc = CtcMissing,
        offer_created_at = LocalDate 2025 0 \<rparr>,
      \<lparr> offer_company = None, offer_reg_no = None, offer_ctc = CtcMissing,
        offer_created_at = LocalDate 2024 0 \<rparr>]"









text \<open>
  The filter of the spec: the search term is empty, or the key field (the company for
  company aggregates, the branch otherwise) contains the search term, both in lower
  case; and for company aggregates the bucket equals the selected range unless that is
  "all".
\<close>

definition keyField :: "string \<Rightarrow> stat \<Rightarrow> string option" where
  "keyField type d = (if type = ''company'' then company d else branch d)"

definition keptBy :: "(string \<Rightarrow> string) \<Rightarrow> view_state \<Rightarrow> string \<Rightarrow> stat \<Rightarrow> bool" where
  "keptBy toLowerCase st type d =
     ((search st = [] \<or>
       (case keyField type d of
          None \<Rightarrow> False
        | Some k \<Rightarrow> sublist (toLowerCase (search st)) (toLowerCase k))) \<and>
      (type = ''company'' \<and> selectedRange st \<noteq> ''all'' \<longrightarrow> ctcRange d = Some (selectedRange st)))"

text \<open>
  The sort key of a mode: the count, the average or the median of the record, where an
  average or median that is absent or NaN counts as 0. The order of the numbers that
  are not NaN, and the place of a number in the descending order. An aggregate whose
  finite average and median are doubles.
\<close>

definition sortKey :: "string \<Rightarrow> stat \<Rightarrow> jsnum" where
  "sortKey mode d =
     (if mode = ''students'' then Fin (of_int (total d))
      else case (if mode = ''avg'' then avg d else median d) of
             None \<Rightarrow> Fin 0
           | Some NaN \<Rightarrow> Fin 0
           | Some v \<Rightarrow> v)"

fun jsLe :: "jsnum \<Rightarrow> jsnum \<Rightarrow> bool" where
  "jsLe NaN y = False"
| "jsLe x NaN = False"
| "jsLe NegInf y = True"
| "jsLe x PosInf = True"
| "jsLe (Fin a) (Fin b) = (a \<le> b)"
| "jsLe x y = False"

definition descendingRank :: "jsnum \<Rightarrow> int \<times> real" where
  "descendingRank v =
     (case v of NaN \<Rightarrow> (0, 0) | NegInf \<Rightarrow> (1, 0) | Fin r \<Rightarrow> (0, - r) | PosInf \<Rightarrow> (- 1, 0))"

definition doubleFields :: "stat \<Rightarrow> bool" where
  "doubleFields d =
     ((case avg d of Some (Fin r) \<Rightarrow> isDouble r | _ \<Rightarrow> True) \<and>
      (case median d of Some (Fin r) \<Rightarrow> isDouble r | _ \<Rightarrow> True))"

definition engSci :: "stat list" where
  "engSci = [noProps \<lparr> branch := Some ''ENG'', total := 5 \<rparr>,
             noProps \<lparr> branch := Some ''SCI'', total := 9 \<rparr>]"

definition oneThenTwo :: "offer list" where
  "oneThenTwo =
     [\<lparr> offer_company = Some ''Acme'', offer_reg_no = None, offer_ctc = CtcNumber 8,
        offer_created_at = LocalDate 2025 2 \<rparr>,
      \<lparr> offer_company = Some ''Bolt'', offer_reg_no = None, offer_ctc = CtcNumber 4,
        offer_created_at = LocalDate 2025 2 \<rparr>,
      \<lparr> offer_company = Some ''Bolt'', offer_reg_no = None, offer_ctc = CtcNumber 6,
        offer_created_at = LocalDate 2025 3 \<rparr>]"

text \<open>Branch aggregates with averages, for an example of the order by average.\<close>

definition threeBranches :: "stat list" where
  "threeBranches =
     [noProps \<lparr> branch := Some ''BCE'', total := 2, avg := Some (Fin 4), median := Some (Fin 4) \<rparr>,
      noProps \<lparr> branch := Some ''BIT'', total := 1, avg := Some (Fin 12), median := Some (Fin 12) \<rparr>,
      noProps \<lparr> branch := Some ''BEC'', total := 3, avg := Some (Fin 4), median := Some (Fin 5) \<rparr>]"

text \<open>A page that makes the loop go on: no error, and at least \<open>chunkSize\<close> rows (and not none).\<close>

definition fullPage :: "('e, 'r) response \<Rightarrow> int \<Rightarrow> bool" where
  "fullPage resp chunkSize =
     (error resp = None \<and>
      (case data resp of None \<Rightarrow> False | Some d \<Rightarrow> d \<noteq> [] \<and> \<not> int (length d) < chunkSize))"

text \<open>A sample service for the examples: its first page is full, every later request fails.\<close>

definition failingServer :: "string \<Rightarrow> int \<Rightarrow> int \<Rightarrow> (string, nat) response" where
  "failingServer t a b =
     (if a = 0 then \<lparr> data = Some [1, 2], error = None \<rparr>
      else \<lparr> data = None, error = Some ''boom'' \<rparr>)"

section \<open>The bulk fetcher: proofs\<close>

lemma fetchLoop_error:
  "error (supabase t from (from + c - 1)) = Some e \<Longrightarrow>
   fetchLoop supabase t c acc from reqs = Some (reqs @ [(from, from + c - 1)], Inl e)"
  by (subst fetchLoop.simps) (simp add: Let_def)

lemma rangeServer_page:
  assumes "0 < c" "nat c \<le> cap"
  shows "rangeServer tbl cap t (int j * c) (int j * c + c - 1) =
         \<lparr> data = Some (take (nat c) (drop (j * nat c) (tbl t))), error = None \<rparr>"
proof -
  have "nat (int j * c) = j * nat c"
    using assms by (simp add: nat_mult_distrib)
  moreover have "min cap (nat (int j * c + c - 1 - int j * c + 1)) = nat c"
    using assms by simp
  ultimately show ?thesis by (simp add: rangeServer_def)
qed

lemma fetchLoop_page:
  assumes "error (supabase t from (from + c - 1)) = None"
    and "data (supabase t from (from + c - 1)) = Some d"
  shows "fetchLoop supabase t c acc from reqs =
    (if d = [] then Some (reqs @ [(from, from + c - 1)], Inr acc)
     else if int (length d) < c then Some (reqs @ [(from, from + c - 1)], Inr (acc @ d))
     else fetchLoop supabase t c (acc @ d) (from + c) (reqs @ [(from, from + c - 1)]))"
  by (subst fetchLoop.simps) (simp add: Let_def assms)

lemma fetchLoop_rangeServer_step:
  assumes "0 < c" "nat c \<le> cap"
  defines "d \<equiv> \<lambda>j rows. take (nat c) (drop (j * nat c) rows)"
  shows "fetchLoop (rangeServer tbl cap) t c acc (int j * c) reqs =
    (if d j (tbl t) = [] then Some (reqs @ [pageRange c j], Inr acc)
     else if int (length (d j (tbl t))) < c then Some (reqs @ [pageRange c j], Inr (acc @ d j (tbl t)))
     else fetchLoop (rangeServer tbl cap) t c (acc @ d j (tbl t)) (int j * c + c) (reqs @ [pageRange c j]))"
proof -
  let ?r = "rangeServer tbl cap t (int j * c) (int j * c + c - 1)"
  have "error ?r = None" "data ?r = Some (d j (tbl t))"
    unfolding d_def rangeServer_page [OF assms(1,2)] by simp_all
  then show ?thesis
    unfolding pageRange_def by (rule fetchLoop_page)
qed

lemma fetchLoop_rangeServer:
  assumes c: "0 < c" "nat c \<le> cap"
  shows "j * nat c \<le> length (tbl t) \<Longrightarrow>
    fetchLoop (rangeServer tbl cap :: string \<Rightarrow> int \<Rightarrow> int \<Rightarrow> ('e, 'r) response)
      t c (take (j * nat c) (tbl t)) (int j * c) reqs =
    Some (reqs @ map (pageRange c) [j ..< length (tbl t) div nat c + 1], Inr (tbl t))"
proof (induction "length (tbl t) - j * nat c" arbitrary: j reqs rule: less_induct)
  case less
  let ?C = "nat c" and ?rows = "tbl t" and ?n = "length (tbl t)"
  let ?S = "rangeServer tbl cap :: string \<Rightarrow> int \<Rightarrow> int \<Rightarrow> ('e, 'r) response"
  let ?d = "take ?C (drop (j * ?C) ?rows)"
  have C: "0 < ?C" "int ?C = c" using c by simp_all
  have le: "j * ?C \<le> ?n" by (rule less.prems)
  have len: "length ?d = min ?C (?n - j * ?C)" by simp
  note step = fetchLoop_rangeServer_step [OF c, of tbl t "take (j * ?C) ?rows" j reqs]
  consider (empty) "?n = j * ?C" | (short) "j * ?C < ?n" "?n < j * ?C + ?C"
    | (full) "j * ?C + ?C \<le> ?n"
    using le by linarith
  then show ?case
  proof cases
    case empty
    then have d: "?d = []" by simp
    have "?n div ?C = j" using empty C(1) by simp
    then have upt: "[j ..< ?n div ?C + 1] = [j]" by simp
    have acc: "take (j * ?C) ?rows = ?rows" using empty by simp
    have "fetchLoop ?S t c (take (j * ?C) ?rows) (int j * c) reqs =
          Some (reqs @ [pageRange c j], Inr (take (j * ?C) ?rows))"
      by (subst step) (simp add: d)
    then show ?thesis by (simp only: upt acc list.map)
  next
    case short
    have "length ?d = ?n - j * ?C" using short len by linarith
    then have "?d \<noteq> []" "length ?d < ?C" using short by auto
    then have l: "?d \<noteq> []" "int (length ?d) < c"
      using C(2) by linarith+
    have "?C * j \<le> ?n" "?n < ?C * Suc j"
      using short by (simp_all add: mult.commute)
    then have "?n div ?C = j" by (rule div_nat_eqI)
    then have upt: "[j ..< ?n div ?C + 1] = [j]" by simp
    have "take (j * ?C) ?rows @ ?d = take (j * ?C + ?C) ?rows"
      by (simp only: take_add)
    also have "\<dots> = ?rows" using short by simp
    finally have all: "take (j * ?C) ?rows @ ?d = ?rows" .
    have "fetchLoop ?S t c (take (j * ?C) ?rows) (int j * c) reqs =
          Some (reqs @ [pageRange c j], Inr (take (j * ?C) ?rows @ ?d))"
      by (subst step) (simp only: l if_True if_False simp_thms)
    then show ?thesis by (simp only: upt all list.map)
  next
    case full
    have "length ?d = ?C" using full len by linarith
    then have l: "?d \<noteq> []" "\<not> int (length ?d) < c" using C by auto
    have sj: "Suc j * ?C = j * ?C + ?C" by simp
    have acc: "take (j * ?C) ?rows @ ?d = take (Suc j * ?C) ?rows"
      unfolding sj by (simp only: take_add)
    have p1: "?n - Suc j * ?C < ?n - j * ?C" using full C(1) unfolding sj by linarith
    have p2: "Suc j * ?C \<le> ?n" using full unfolding sj .
    have "j * ?C < ?n" using full C(1) by linarith
    then have "j \<le> ?n div ?C"
      using C(1) by (simp add: less_eq_div_iff_mult_less_eq less_imp_le)
    then have "j < ?n div ?C + 1" by simp
    then have upt: "[j ..< ?n div ?C + 1] = j # [Suc j ..< ?n div ?C + 1]"
      by (rule upt_conv_Cons)
    have adv: "int j * c + c = int (Suc j) * c" by (simp add: algebra_simps)
    have "fetchLoop ?S t c (take (j * ?C) ?rows) (int j * c) reqs =
          fetchLoop ?S t c (take (j * ?C) ?rows @ ?d) (int j * c + c)
            (reqs @ [pageRange c j])"
      by (subst step) (simp only: l if_False simp_thms)
    also have "\<dots> = Some ((reqs @ [pageRange c j]) @
        map (pageRange c) [Suc j ..< ?n div ?C + 1], Inr ?rows)"
      unfolding acc adv by (rule less.hyps [OF p1 p2])
    finally show ?thesis
      by (simp only: upt list.map append_assoc append_Cons append_Nil)
  qed
qed

lemma fetchLoop_error_after:
  assumes "\<And>i. i < k \<Longrightarrow> fullPage (S t (from + int i * c) (from + int i * c + c - 1)) c"
    and "error (S t (from + int k * c) (from + int k * c + c - 1)) = Some e"
  shows "fetchLoop S t c acc from reqs =
    Some (reqs @ map (\<lambda>i. (from + int i * c, from + int i * c + c - 1)) [0 ..< Suc k], Inl e)"
  using assms
proof (induction k arbitrary: "from" acc reqs)
  case 0
  then show ?case using fetchLoop_error [of S t "from" c e acc reqs] by simp
next
  case (Suc k)
  have "fullPage (S t from (from + c - 1)) c" using Suc.prems(1) [of 0] by simp
  then obtain d where d: "error (S t from (from + c - 1)) = None"
    "data (S t from (from + c - 1)) = Some d" "d \<noteq> []" "\<not> int (length d) < c"
    by (auto simp: fullPage_def split: option.splits)
  have shift: "from + c + int i * c = from + int (Suc i) * c" for i
    by (simp add: algebra_simps)
  have "fetchLoop S t c (acc @ d) (from + c) (reqs @ [(from, from + c - 1)]) =
    Some ((reqs @ [(from, from + c - 1)]) @
      map (\<lambda>i. (from + c + int i * c, from + c + int i * c + c - 1)) [0 ..< Suc k], Inl e)"
  proof (rule Suc.IH)
    fix i assume "i < k"
    then show "fullPage (S t (from + c + int i * c) (from + c + int i * c + c - 1)) c"
      using Suc.prems(1) [of "Suc i"] unfolding shift by simp
  next
    show "error (S t (from + c + int k * c) (from + c + int k * c + c - 1)) = Some e"
      using Suc.prems(2) unfolding shift .
  qed
  moreover have "map (\<lambda>i. (from + int i * c, from + int i * c + c - 1)) [0 ..< Suc (Suc k)] =
    (from, from + c - 1) # map (\<lambda>i. (from + c + int i * c, from + c + int i * c + c - 1)) [0 ..< Suc k]"
    unfolding shift
    by (subst upt_conv_Cons, simp, subst map_Suc_upt [symmetric]) (simp del: upt_Suc of_nat_Suc)
  ultimately show ?case
    using d(3,4) fetchLoop_page [of S t "from" c d acc reqs, OF d(1,2)]
    by (simp del: upt_Suc of_nat_Suc)
qed

lemma fetchLoop_rows_no_error:
  assumes "fetchLoop S t c acc from reqs = Some (trace, Inr rows)"
    and "\<forall>r\<in>set reqs. error (S t (fst r) (snd r)) = None"
  shows "\<forall>r\<in>set trace. error (S t (fst r) (snd r)) = None"
proof -
  have "(\<forall>r\<in>set reqs. error (S t (fst r) (snd r)) = None) \<longrightarrow>
        (\<forall>rows. snd y = Inr rows \<longrightarrow> (\<forall>r\<in>set (fst y). error (S t (fst r) (snd r)) = None))"
    if "fetchLoop S t c acc from reqs = Some y" for y
  proof (rule fetchLoop.raw_induct [where P = "\<lambda>S t c acc from reqs y.
        (\<forall>r\<in>set reqs. error (S t (fst r) (snd r)) = None) \<longrightarrow>
        (\<forall>rows. snd y = Inr rows \<longrightarrow> (\<forall>r\<in>set (fst y). error (S t (fst r) (snd r)) = None))"],
      goal_cases)
    case (1 f S t c acc "from" reqs y)
    show ?case
      using 1(2) 1(1) [of S t c _ "from + c" "reqs @ [(from, from + c - 1)]"]
      by (auto simp: Let_def split: option.splits if_splits)
  qed (rule that)
  from this [OF assms(1)] assms(2) show ?thesis by simp
qed

text \<open>
  C1. Against a service that holds \<open>n\<close> rows for the resource and answers range
  requests (its row cap not below the page size), \<open>fetchAllRows\<close> returns, and returns
  exactly the \<open>n\<close> rows in the order of the service. It issues \<open>n div chunkSize + 1\<close>
  requests, the \<open>k\<close>-th for the range starting at \<open>k * chunkSize\<close>: the offset advances
  by the page size after each full page, the loop stops at the first page that is
  short or empty, and a row count that is a multiple of the page size costs one
  trailing request that returns no rows. The second part is the default page size 1000.
\<close>

theorem fetchAllRows_returns_all_rows:
  assumes "0 < chunkSize" and "nat chunkSize \<le> cap"
  shows "fetchAllRows (rangeServer tbl cap) t chunkSize =
           Some (map (pageRange chunkSize) [0 ..< length (tbl t) div nat chunkSize + 1], Inr (tbl t))
         \<and> (1000 \<le> cap \<longrightarrow>
              fetchAllRowsDefault (rangeServer tbl cap) t =
                Some (map (pageRange 1000) [0 ..< length (tbl t) div 1000 + 1], Inr (tbl t)))"
proof (intro conjI impI)
  show "fetchAllRows (rangeServer tbl cap) t chunkSize =
        Some (map (pageRange chunkSize) [0 ..< length (tbl t) div nat chunkSize + 1], Inr (tbl t))"
    using fetchLoop_rangeServer [OF assms, of 0 tbl t "[]"]
    by (simp add: fetchAllRows_def)
next
  assume "1000 \<le> cap"
  then have "nat 1000 \<le> cap" by simp
  from fetchLoop_rangeServer [of 1000 cap 0 tbl t "[]", OF _ this]
  have "fetchLoop (rangeServer tbl cap) t 1000 [] 0 [] =
        Some (map (pageRange 1000) [0 ..< length (tbl t) div nat 1000 + 1], Inr (tbl t))"
    by simp
  moreover have "nat 1000 = (1000 :: nat)" by simp
  ultimately show "fetchAllRowsDefault (rangeServer tbl cap) t =
        Some (map (pageRange 1000) [0 ..< length (tbl t) div 1000 + 1], Inr (tbl t))"
    unfolding fetchAllRows_def fetchAllRowsDefault_def by (simp only:)
qed

theorem fetchAllRows_returns_all_rows_witness:
  "(0::int) < 2 \<and> nat 2 \<le> (1000::nat) \<and>
   fetchAllRows (rangeServer (\<lambda>_. [1, 2, 3, 4 :: nat]) 1000
                 :: string \<Rightarrow> int \<Rightarrow> int \<Rightarrow> (unit, nat) response) ''Offer'' 2 =
     Some ([(0, 1), (2, 3), (4, 5)], Inr [1, 2, 3, 4]) \<and>
   fetchAllRowsDefault (rangeServer (\<lambda>_. [1, 2, 3, 4 :: nat]) 1000
                 :: string \<Rightarrow> int \<Rightarrow> int \<Rightarrow> (unit, nat) response) ''Offer'' =
     Some ([(0, 999)], Inr [1, 2, 3, 4])"
  using fetchAllRows_returns_all_rows [of 2 1000 "\<lambda>_. [1, 2, 3, 4 :: nat]" "''Offer''"]
  by (simp add: pageRange_def upt_conv_Cons)

text \<open>
  C5. Against any service: when the first \<open>k\<close> pages are full and free of errors and
  the next request answers with the error \<open>e\<close>, \<open>fetchAllRows\<close> returns, and its result
  is the throw of \<open>e\<close> itself; the rows accumulated so far are not returned. And
  whenever \<open>fetchAllRows\<close> returns rows, none of the requests it issued had answered
  with an error.
\<close>

theorem fetchAllRows_error_aborts:
  "((\<forall>i<k. fullPage (S t (int i * c) (int i * c + c - 1)) c) \<and>
    error (S t (int k * c) (int k * c + c - 1)) = Some e \<longrightarrow>
      fetchAllRows S t c = Some (map (pageRange c) [0 ..< Suc k], Inl e))
   \<and> (fetchAllRows S t c = Some (trace, Inr rows) \<longrightarrow>
        (\<forall>r\<in>set trace. error (S t (fst r) (snd r)) = None))"
proof (intro conjI impI)
  assume "(\<forall>i<k. fullPage (S t (int i * c) (int i * c + c - 1)) c) \<and>
    error (S t (int k * c) (int k * c + c - 1)) = Some e"
  then show "fetchAllRows S t c = Some (map (pageRange c) [0 ..< Suc k], Inl e)"
    using fetchLoop_error_after [of k S t 0 c e "[]" "[]"]
    by (simp add: fetchAllRows_def pageRange_def del: upt_Suc)
next
  assume "fetchAllRows S t c = Some (trace, Inr rows)"
  then show "\<forall>r\<in>set trace. error (S t (fst r) (snd r)) = None"
    using fetchLoop_rows_no_error [of S t c "[]" 0 "[]" trace rows]
    by (simp add: fetchAllRows_def)
qed

theorem fetchAllRows_error_aborts_witness:
  "fullPage (failingServer ''Offer'' 0 1) 2 \<and>
   error (failingServer ''Offer'' 2 3) = Some ''boom'' \<and>
   fetchAllRows failingServer ''Offer'' 2 = Some ([(0, 1), (2, 3)], Inl ''boom'') \<and>
   fetchAllRows (rangeServer (\<lambda>_. [5, 6, 7 :: nat]) 2
                 :: string \<Rightarrow> int \<Rightarrow> int \<Rightarrow> (unit, nat) response) ''Offer'' 2 =
     Some ([(0, 1), (2, 3)], Inr [5, 6, 7]) \<and>
   error (rangeServer (\<lambda>_. [5, 6, 7 :: nat]) 2 ''Offer'' 0 1 :: (unit, nat) response) = None \<and>
   error (rangeServer (\<lambda>_. [5, 6, 7 :: nat]) 2 ''Offer'' 2 3 :: (unit, nat) response) = None"
proof -
  let ?R = "rangeServer (\<lambda>_. [5, 6, 7 :: nat]) 2 :: string \<Rightarrow> int \<Rightarrow> int \<Rightarrow> (unit, nat) response"
  have full: "fullPage (failingServer ''Offer'' 0 1) 2"
    and err: "error (failingServer ''Offer'' 2 3) = Some ''boom''"
    by (simp_all add: fullPage_def failingServer_def)
  have run: "fetchAllRows ?R ''Offer'' 2 = Some ([(0, 1), (2, 3)], Inr [5, 6, 7])"
    using fetchLoop_rangeServer [of 2 2 0 "\<lambda>_. [5, 6, 7 :: nat]" "''Offer''" "[]"]
    by (simp add: fetchAllRows_def pageRange_def upt_conv_Cons)
  have "fetchAllRows failingServer ''Offer'' 2 = Some ([(0, 1), (2, 3)], Inl ''boom'')"
    using fetchAllRows_error_aborts [of 1 failingServer "''Offer''" 2 "''boom''"] full err
    by (simp add: pageRange_def)
  moreover have "error (?R ''Offer'' 0 1) = None \<and> error (?R ''Offer'' 2 3) = None"
    using fetchAllRows_error_aborts [of 0 ?R "''Offer''" 2 undefined "[(0, 1), (2, 3)]" "[5, 6, 7]"] run
    by simp
  ultimately show ?thesis using full err run by simp
qed

section \<open>Objects as dictionaries: proofs\<close>

lemma map_of_upsert:
  "map_of (upsert k v0 f obj) k' =
     (if k' = k \<and> (map_of obj k \<noteq> None \<or> k \<notin> set objectPrototypeNames)
      then Some (f (case map_of obj k of None \<Rightarrow> v0 | Some v \<Rightarrow> v)) else map_of obj k')"
  by (cases "map_of obj k")
    (auto simp: upsert_def AList.map_of_map_entry map_add_def split: option.splits)

lemma keys_upsert:
  "fst ` set (upsert k v0 f obj) =
     (if map_of obj k = None \<and> k \<in> set objectPrototypeNames then fst ` set obj
      else insert k (fst ` set obj))"
proof (cases "map_of obj k")
  case None
  then show ?thesis by (simp add: upsert_def AList.dom_map_entry)
next
  case (Some v)
  then have "k \<in> fst ` set obj" by (metis map_of_eq_None_iff option.distinct(1))
  with Some show ?thesis by (auto simp: upsert_def AList.dom_map_entry)
qed

lemma distinct_upsert:
  assumes "distinct (map fst obj)"
  shows "distinct (map fst (upsert k v0 f obj))"
proof (cases "map_of obj k")
  case None
  then have "k \<notin> fst ` set obj" by (simp add: map_of_eq_None_iff)
  with assms have "distinct (map fst (obj @ [(k, v0)]))" by simp
  then have "distinct (map fst (AList.map_entry k f (obj @ [(k, v0)])))"
    by (simp only: AList.distinct_map_entry)
  then show ?thesis using None assms
    unfolding upsert_def by (simp only: if_True simp_thms split: if_split)
next
  case (Some v)
  then show ?thesis using assms by (simp add: upsert_def AList.distinct_map_entry)
qed

lemma foldl_upsert_keys:
  assumes "\<And>obj p. step obj p = upsert (key p) (ini p) (upd p) obj"
  shows "fst ` set (foldl step [] ps) = key ` set ps - set objectPrototypeNames"
proof (induction ps rule: rev_induct)
  case Nil
  then show ?case by simp
next
  case (snoc p ps)
  show ?case
  proof (cases "key p \<in> set objectPrototypeNames")
    case True
    then have "key p \<notin> fst ` set (foldl step [] ps)" using snoc by simp
    then have none: "map_of (foldl step [] ps) (key p) = None" by (simp add: map_of_eq_None_iff)
    have "foldl step [] (ps @ [p]) = upsert (key p) (ini p) (upd p) (foldl step [] ps)"
      by (simp only: foldl_append foldl.simps assms)
    also have "\<dots> = foldl step [] ps" using none True by (simp add: upsert_def)
    finally show ?thesis using snoc True by auto
  next
    case False
    have "foldl step [] (ps @ [p]) = upsert (key p) (ini p) (upd p) (foldl step [] ps)"
      by (simp only: foldl_append foldl.simps assms)
    then have "fst ` set (foldl step [] (ps @ [p])) = insert (key p) (fst ` set (foldl step [] ps))"
      using False by (simp only: keys_upsert simp_thms if_False)
    then show ?thesis using snoc False by auto
  qed
qed

lemma foldl_upsert_distinct:
  assumes "\<And>obj p. step obj p = upsert (key p) (ini p) (upd p) obj"
  shows "distinct (map fst (foldl step [] ps))"
  by (induction ps rule: rev_induct) (simp_all add: assms distinct_upsert)

lemma foldl_upsert_lookup:
  assumes step: "\<And>obj p. step obj p = upsert (key p) (ini p) (upd p) obj"
  shows "map_of (foldl step [] ps) k =
    (if k \<in> key ` set ps \<and> k \<notin> set objectPrototypeNames
     then Some (foldl (\<lambda>r p. upd p r) (ini (hd (filter (\<lambda>p. key p = k) ps)))
                 (filter (\<lambda>p. key p = k) ps))
     else None)"
proof (induction ps rule: rev_induct)
  case Nil
  then show ?case by simp
next
  case (snoc p ps)
  let ?qs = "filter (\<lambda>p. key p = k) ps"
  show ?case
  proof (cases "key p = k")
    case False
    then show ?thesis using snoc by (auto simp: step map_of_upsert)
  next
    case True
    show ?thesis
    proof (cases "k \<in> set objectPrototypeNames")
      case inherited: True
      then show ?thesis using snoc True by (simp add: step map_of_upsert)
    next
      case own: False
      show ?thesis
      proof (cases "k \<in> key ` set ps")
        case in_ps: True
        then have "?qs \<noteq> []" by (auto simp: filter_empty_conv)
        then have "hd (?qs @ [p]) = hd ?qs" by simp
        then show ?thesis using snoc True in_ps own by (simp add: step map_of_upsert)
      next
        case notin: False
        then have "?qs = []" by (auto simp: filter_empty_conv)
        then show ?thesis using snoc True notin own by (simp add: step map_of_upsert)
      qed
    qed
  qed
qed

lemma objectValues_mset: "mset (objectValues obj) = mset (map snd obj)"
proof -
  let ?P = "\<lambda>kv :: string \<times> 'a. isArrayIndex (fst kv)"
  have "mset (objectValues obj) =
        image_mset snd (filter_mset ?P (mset obj)) + image_mset snd (filter_mset (\<lambda>kv. \<not> ?P kv) (mset obj))"
    by (simp add: objectValues_def)
  also have "\<dots> = image_mset snd (filter_mset ?P (mset obj) + filter_mset (\<lambda>kv. \<not> ?P kv) (mset obj))"
    by (rule image_mset_union [symmetric])
  also have "filter_mset ?P (mset obj) + filter_mset (\<lambda>kv. \<not> ?P kv) (mset obj) = mset obj"
    by (rule multiset_partition [symmetric])
  finally show ?thesis by simp
qed

lemma set_objectValues: "set (objectValues obj) = snd ` set obj"
  using objectValues_mset [of obj] by (metis mset_eq_setD set_map)

lemma length_objectValues: "length (objectValues obj) = length obj"
  using objectValues_mset [of obj] by (metis length_map mset_eq_length)

lemma distinct_objectValues_field:
  assumes "distinct (map fst obj)" and "\<And>k v. (k, v) \<in> set obj \<Longrightarrow> g v = Some k"
  shows "distinct (map g (objectValues obj))"
proof -
  have "map (\<lambda>kv. g (snd kv)) obj = map (\<lambda>kv. Some (fst kv)) obj"
    using assms(2) by (auto intro!: map_cong)
  then have eq: "map g (map snd obj) = map Some (map fst obj)" by (simp add: comp_def)
  have "distinct (map Some (map fst obj))"
    using assms(1) by (simp add: distinct_map inj_on_def)
  then have "distinct (map g (map snd obj))" by (simp only: eq)
  moreover have "mset (map g (objectValues obj)) = mset (map g (map snd obj))"
    using objectValues_mset [of obj] by (metis mset_map)
  ultimately show ?thesis by (metis mset_eq_imp_distinct_iff)
qed

lemma set_of_distinct_object:
  assumes "distinct (map fst obj)"
  shows "snd ` set obj = {v. \<exists>k. map_of obj k = Some v}"
  using assms by (auto simp: image_iff) (metis map_of_SomeD snd_conv)+

section \<open>Aggregation by company: proofs\<close>

lemma company_fold:
  "foldl (\<lambda>r p. r \<lparr> total := total r + 1, ctc := Some (numberOrZero (offer_ctc p)),
                     ctcRange := Some (getCtcRange (numberOrZero (offer_ctc p))) \<rparr>) r0 qs =
   (if qs = [] then r0
    else r0 \<lparr> total := total r0 + int (length qs),
              ctc := Some (numberOrZero (offer_ctc (last qs))),
              ctcRange := Some (getCtcRange (numberOrZero (offer_ctc (last qs)))) \<rparr>)"
  by (induction qs rule: rev_induct) simp_all

lemma companyStep_upsert:
  "companyStep fmt obj p =
     upsert (companyKey p)
       (noProps \<lparr> company := Some (companyKey p), total := 0,
                   month := Some (fmt (offer_created_at p)), ctc := Some 0, ctcRange := Some [] \<rparr>)
       (\<lambda>r. r \<lparr> total := total r + 1, ctc := Some (numberOrZero (offer_ctc p)),
                ctcRange := Some (getCtcRange (numberOrZero (offer_ctc p))) \<rparr>)
       obj"
  by (simp add: companyStep_def Let_def)

lemma companyObject_lookup:
  "map_of (foldl (companyStep fmt) [] ps) k =
     (if k \<in> companyKey ` set ps \<and> k \<notin> set objectPrototypeNames
      then Some (companySummary fmt ps k) else None)"
proof (cases "k \<in> companyKey ` set ps \<and> k \<notin> set objectPrototypeNames")
  case False
  then show ?thesis
    using foldl_upsert_lookup [of "companyStep fmt", OF companyStep_upsert, of ps k] by auto
next
  case True
  let ?qs = "offersOf k ps"
  have ne: "?qs \<noteq> []" using True by (auto simp: offersOf_def filter_empty_conv)
  then have "hd ?qs \<in> set ?qs" by simp
  then have key: "companyKey (hd ?qs) = k" by (simp add: offersOf_def)
  show ?thesis
    using foldl_upsert_lookup [of "companyStep fmt", OF companyStep_upsert, of ps k] True ne key
    by (simp add: company_fold companySummary_def Let_def flip: offersOf_def)
qed

lemma companyStats_set:
  "set (companyStats fmt ps) =
     companySummary fmt ps ` (companyKey ` set ps - set objectPrototypeNames)"
proof -
  let ?G = "foldl (companyStep fmt) [] ps"
  have d: "distinct (map fst ?G)"
    by (rule foldl_upsert_distinct [of "companyStep fmt", OF companyStep_upsert])
  have "set (companyStats fmt ps) = {v. \<exists>k. map_of ?G k = Some v}"
    by (simp add: companyStats_def set_objectValues set_of_distinct_object [OF d])
  also have "\<dots> = companySummary fmt ps ` (companyKey ` set ps - set objectPrototypeNames)"
    by (auto simp: companyObject_lookup split: if_splits)
  finally show ?thesis .
qed

lemma companyStats_distinct: "distinct (map company (companyStats fmt ps))"
proof -
  let ?G = "foldl (companyStep fmt) [] ps"
  have d: "distinct (map fst ?G)"
    by (rule foldl_upsert_distinct [of "companyStep fmt", OF companyStep_upsert])
  have "company v = Some k" if "(k, v) \<in> set ?G" for k v
  proof -
    have "map_of ?G k = Some v" using that d by simp
    then show ?thesis
      by (auto simp: companyObject_lookup companySummary_def Let_def split: if_splits)
  qed
  with d show ?thesis
    unfolding companyStats_def by (rule distinct_objectValues_field)
qed

text \<open>
  A company name that an object inherits as a member leaves no record: the test
  \<^verbatim>\<open>!stats[comp]\<close> finds the inherited member.
\<close>

lemma companyStats_inherited_name:
  "companyStats fmt
     [\<lparr> offer_company = Some ''constructor'', offer_reg_no = r, offer_ctc = c,
        offer_created_at = d \<rparr>] = []"
  by (simp add: companyStats_def companyStep_def companyKey_def upsert_def
      objectPrototypeNames_def objectValues_def)

text \<open>
  C2 (amended). For every sequence of offers none of whose company keys names a member
  that an object inherits from \<^verbatim>\<open>Object.prototype\<close> (such as \<^verbatim>\<open>constructor\<close>), the
  aggregation by company produces exactly one record for each distinct company key; its
  \<open>total\<close> is the number of the offers with that key, its \<open>ctc\<close> and \<open>ctcRange\<close> are
  those of the last such offer, and its \<open>month\<close> is the label of the first such offer:
  the month is written once, when the record is created. On the two offers of company A
  with compensation 3 and then 7 the result is one record with total 2, ctc 7 and
  bucket 5-10, and the month of the first offer.
\<close>

theorem companyStats_last_ctc_first_month:
  "(companyKey ` set ps \<inter> set objectPrototypeNames = {} \<longrightarrow>
      set (companyStats fmt ps) = companySummary fmt ps ` companyKey ` set ps
      \<and> distinct (map company (companyStats fmt ps))
      \<and> length (companyStats fmt ps) = card (companyKey ` set ps))
   \<and> companyStats fmt
        [\<lparr> offer_company = Some ''A'', offer_reg_no = r1, offer_ctc = CtcNumber 3,
           offer_created_at = d1 \<rparr>,
         \<lparr> offer_company = Some ''A'', offer_reg_no = r2, offer_ctc = CtcNumber 7,
           offer_created_at = d2 \<rparr>] =
        [\<lparr> company = Some ''A'', branch = None, total = 2, month = Some (fmt d1), ctc = Some 7,
           ctcRange = Some ''5-10'', ctcValues = None, avg = None, median = None \<rparr>]"
proof (intro conjI impI)
  assume own: "companyKey ` set ps \<inter> set objectPrototypeNames = {}"
  then have keys: "companyKey ` set ps - set objectPrototypeNames = companyKey ` set ps"
    by blast
  show "set (companyStats fmt ps) = companySummary fmt ps ` companyKey ` set ps"
    by (simp only: companyStats_set keys)
  show "distinct (map company (companyStats fmt ps))"
    by (rule companyStats_distinct)
  let ?G = "foldl (companyStep fmt) [] ps"
  have "length (companyStats fmt ps) = length (map fst ?G)"
    by (simp add: companyStats_def length_objectValues)
  also have "\<dots> = card (set (map fst ?G))"
    using foldl_upsert_distinct [of "companyStep fmt", OF companyStep_upsert, of ps]
    by (simp only: distinct_card)
  also have "set (map fst ?G) = companyKey ` set ps"
    using foldl_upsert_keys [of "companyStep fmt", OF companyStep_upsert, of ps] keys by simp
  finally show "length (companyStats fmt ps) = card (companyKey ` set ps)" .
next
  have a: "''A'' \<notin> set objectPrototypeNames" by (simp add: objectPrototypeNames_def)
  show "companyStats fmt
        [\<lparr> offer_company = Some ''A'', offer_reg_no = r1, offer_ctc = CtcNumber 3,
           offer_created_at = d1 \<rparr>,
         \<lparr> offer_company = Some ''A'', offer_reg_no = r2, offer_ctc = CtcNumber 7,
           offer_created_at = d2 \<rparr>] =
        [\<lparr> company = Some ''A'', branch = None, total = 2, month = Some (fmt d1), ctc = Some 7,
           ctcRange = Some ''5-10'', ctcValues = None, avg = None, median = None \<rparr>]"
    using a
    by (simp add: companyStats_def companyStep_def companyKey_def upsert_def objectValues_def
        isArrayIndex_def noProps_def numberOrZero_def getCtcRange_def Let_def)
qed

theorem companyStats_last_ctc_first_month_witness:
  "companyKey ` set twoMonths \<inter> set objectPrototypeNames = {} \<and>
   set (companyStats enUSLabel twoMonths) =
     {\<lparr> company = Some ''A'', branch = None, total = 2, month = Some ''Jan 2025'', ctc = Some 7,
        ctcRange = Some ''5-10'', ctcValues = None, avg = None, median = None \<rparr>} \<and>
   length (companyStats enUSLabel twoMonths) = 1"
proof -
  have k: "companyKey ` set twoMonths = {''A''}"
    by (auto simp: twoMonths_def companyKey_def)
  have own: "companyKey ` set twoMonths \<inter> set objectPrototypeNames = {}"
    unfolding k by (simp add: objectPrototypeNames_def)
  have l: "enUSLabel (LocalDate 2025 0) = ''Jan 2025''" by code_simp
  have s: "companySummary enUSLabel twoMonths ''A'' =
     \<lparr> company = Some ''A'', branch = None, total = 2, month = Some ''Jan 2025'', ctc = Some 7,
        ctcRange = Some ''5-10'', ctcValues = None, avg = None, median = None \<rparr>"
    by (simp add: companySummary_def offersOf_def twoMonths_def companyKey_def noProps_def
        numberOrZero_def getCtcRange_def l Let_def)
  show ?thesis
    using companyStats_last_ctc_first_month [of twoMonths enUSLabel] own
    by (simp add: k s)
qed

text \<open>
  C2, as stated, fails on the month: for two offers of one company made in January and
  in February 2025, the record carries the label of January, the first offer, while
  the last offer is of February.
\<close>

theorem companyStats_month_counterexample:
  "map month (companyStats enUSLabel twoMonths) = [Some ''Jan 2025''] \<and>
   enUSLabel (offer_created_at (last (offersOf ''A'' twoMonths))) = ''Feb 2025''"
  by code_simp



section \<open>Buckets and branch codes: proofs\<close>

text \<open>
  C3. \<open>getCtcRange\<close> is total on the numbers and returns one of six distinct labels; each
  label is returned exactly on its interval of the ladder: below 5 (all negative values
  included), from 5 to below 10, from 10 to below 15, from 15 to below 20, from 20 to
  below 30 for the label 20+, and from 30 on.
\<close>

theorem getCtcRange_ladder:
  "getCtcRange c \<in> {''<5'', ''5-10'', ''10-15'', ''15-20'', ''20+'', ''30+''}
   \<and> distinct [''<5'', ''5-10'', ''10-15'', ''15-20'', ''20+'', ''30+'']
   \<and> (getCtcRange c = ''<5'' \<longleftrightarrow> c < 5)
   \<and> (getCtcRange c = ''5-10'' \<longleftrightarrow> 5 \<le> c \<and> c < 10)
   \<and> (getCtcRange c = ''10-15'' \<longleftrightarrow> 10 \<le> c \<and> c < 15)
   \<and> (getCtcRange c = ''15-20'' \<longleftrightarrow> 15 \<le> c \<and> c < 20)
   \<and> (getCtcRange c = ''20+'' \<longleftrightarrow> 20 \<le> c \<and> c < 30)
   \<and> (getCtcRange c = ''30+'' \<longleftrightarrow> 30 \<le> c)"
  by (simp add: getCtcRange_def)

theorem getCtcRange_ladder_witness:
  "getCtcRange (- 3) = ''<5'' \<and> getCtcRange 5 = ''5-10'' \<and> getCtcRange 29.99 = ''20+''
   \<and> getCtcRange 30 = ''30+'' \<and> getCtcRange 1000 = ''30+''"
  using getCtcRange_ladder [of "- 3"] getCtcRange_ladder [of 5] getCtcRange_ladder [of "29.99"]
    getCtcRange_ladder [of 30] getCtcRange_ladder [of 1000]
  by simp

text \<open>
  C6, as stated, fails on the empty text: it is a text, and its substring from 2 to 5
  is empty, but it is falsy, and \<open>getBranch\<close> answers with the sentinel.
\<close>

theorem getBranch_empty_string_counterexample:
  "getBranch (Some '''') = ''UNK'' \<and> substring '''' 2 5 = '''' \<and> getBranch (Some '''') \<noteq> substring '''' 2 5"
  by (simp add: getBranch_def substring_def)

text \<open>
  C6 (amended). For every non-empty text, \<open>getBranch\<close> returns its characters at the
  positions 2 to 4, as many as there are: the result has \<open>min 3 (length - 2)\<close>
  characters, so a text shorter than 5 characters gives a shorter or empty code. For
  null, undefined and the empty text it returns the sentinel UNK.
\<close>

theorem getBranch_positions:
  "(reg \<noteq> [] \<longrightarrow>
      getBranch (Some reg) = substring reg 2 5 \<and>
      length (getBranch (Some reg)) = min 3 (length reg - 2) \<and>
      (\<forall>i < length (getBranch (Some reg)). getBranch (Some reg) ! i = reg ! (2 + i)))
   \<and> getBranch (Some []) = ''UNK''
   \<and> getBranch None = ''UNK''"
  by (auto simp: getBranch_def substring_def Let_def)

theorem getBranch_positions_witness:
  "''AB123CDE'' \<noteq> [] \<and> getBranch (Some ''AB123CDE'') = ''123'' \<and>
   getBranch (Some ''AB1'') = ''1'' \<and> getBranch (Some ''AB'') = '''' \<and> getBranch (Some ''A'') = ''''"
  using getBranch_positions [of "''AB123CDE''"] getBranch_positions [of "''AB1''"]
    getBranch_positions [of "''AB''"] getBranch_positions [of "''A''"]
  by (simp add: substring_def)

section \<open>Grouping keys: proofs\<close>

lemma of_char_digitChar: "d < 10 \<Longrightarrow> (of_char (digitChar d) :: nat) = 48 + d"
  by (simp add: digitChar_def)

lemma digitChar_inj:
  assumes "a < 10" "b < 10" "digitChar a = digitChar b"
  shows "a = b"
proof -
  have "(of_char (digitChar a) :: nat) = of_char (digitChar b)"
    by (simp only: assms(3))
  then have "48 + a = 48 + b"
    by (simp only: of_char_digitChar [OF assms(1)] of_char_digitChar [OF assms(2)])
  then show ?thesis by simp
qed

lemma showNat_digits: "c \<in> set (showNat n) \<Longrightarrow> 48 \<le> (of_char c :: nat) \<and> (of_char c :: nat) \<le> 57"
proof (induction n arbitrary: c rule: showNat.induct)
  case (1 n)
  show ?case
  proof (cases "n < 10")
    case True
    then have "c = digitChar n" using "1.prems" by (simp add: showNat.simps)
    then show ?thesis using of_char_digitChar [OF True] True by simp
  next
    case False
    then have "c \<in> set (showNat (n div 10)) \<or> c = digitChar (n mod 10)"
      using "1.prems" by (subst (asm) showNat.simps) auto
    then show ?thesis
    proof
      assume "c \<in> set (showNat (n div 10))"
      then show ?thesis using "1.IH" False by simp
    next
      assume "c = digitChar (n mod 10)"
      then show ?thesis using of_char_digitChar [of "n mod 10"] by simp
    qed
  qed
qed

lemma showNat_nonempty: "showNat n \<noteq> []"
  by (subst showNat.simps) simp

lemma showNat_inj: "showNat n = showNat m \<Longrightarrow> n = m"
proof (induction n arbitrary: m rule: showNat.induct)
  case (1 n)
  show ?case
  proof (cases "n < 10")
    case n: True
    show ?thesis
    proof (cases "m < 10")
      case True
      then show ?thesis using "1.prems" n digitChar_inj [of n m]
        by (simp add: showNat.simps [of n] showNat.simps [of m])
    next
      case False
      then show ?thesis using "1.prems" n showNat_nonempty [of "m div 10"]
        by (simp add: showNat.simps [of n] showNat.simps [of m])
    qed
  next
    case n: False
    show ?thesis
    proof (cases "m < 10")
      case True
      then show ?thesis using "1.prems" n showNat_nonempty [of "n div 10"]
        by (simp add: showNat.simps [of n] showNat.simps [of m])
    next
      case False
      then have "showNat (n div 10) = showNat (m div 10)" "digitChar (n mod 10) = digitChar (m mod 10)"
        using "1.prems" n by (simp_all add: showNat.simps [of n] showNat.simps [of m])
      then have "n div 10 = m div 10" "n mod 10 = m mod 10"
        using "1.IH" [OF n] digitChar_inj [of "n mod 10" "m mod 10"] by simp_all
      then show ?thesis by (metis div_mult_mod_eq)
    qed
  qed
qed

lemma dash_not_digit: "CHR ''-'' \<notin> set (showNat n)"
  using showNat_digits [of "CHR ''-''" n] by auto

lemma showInt_inj: "showInt a = showInt b \<Longrightarrow> a = b"
proof -
  have hd: "hd (showNat n) \<noteq> CHR ''-''" for n
    using dash_not_digit [of n] showNat_nonempty [of n] by (metis hd_in_set)
  have neq: "CHR ''-'' # xs \<noteq> showNat n" for xs n
    using hd [of n] by (metis list.sel(1))
  assume "showInt a = showInt b"
  then show ?thesis
    using neq [of "showNat (nat (- a))" "nat b"] neq [of "showNat (nat (- b))" "nat a"]
      showNat_inj [of "nat a" "nat b"] showNat_inj [of "nat (- a)" "nat (- b)"]
    by (auto simp: showInt_def split: if_splits)
qed

lemma split_at_first:
  "c \<notin> set as \<Longrightarrow> c \<notin> set bs \<Longrightarrow> as @ c # r = bs @ c # r' \<Longrightarrow> as = bs \<and> r = r'"
proof (induction as arbitrary: bs)
  case Nil
  then show ?case by (cases bs) auto
next
  case (Cons a as)
  then show ?case by (cases bs) auto
qed

lemma split_at_last:
  assumes "c \<notin> set ys" "c \<notin> set ys'" "xs @ c # ys = xs' @ c # ys'"
  shows "xs = xs' \<and> ys = ys'"
proof -
  have "rev ys @ c # rev xs = rev ys' @ c # rev xs'"
    using arg_cong [OF assms(3), of rev] by simp
  with assms(1,2) have "rev ys = rev ys' \<and> rev xs = rev xs'"
    by (intro split_at_first [of c]) simp_all
  then show ?thesis by simp
qed

lemma monthKey_inj: "(monthKey d = monthKey d') = (d = d')"
proof
  assume eq: "monthKey d = monthKey d'"
  have nan: "''NaN-NaN'' \<noteq> showInt y @ ''-'' @ showNat (m + 1)" for y m
  proof
    assume "''NaN-NaN'' = showInt y @ ''-'' @ showNat (m + 1)"
    then have "''NaN'' @ CHR ''-'' # ''NaN'' = showInt y @ CHR ''-'' # showNat (m + 1)" by simp
    moreover have "CHR ''-'' \<notin> set ''NaN''" by simp
    ultimately have "''NaN'' = showInt y \<and> ''NaN'' = showNat (m + 1)"
      using dash_not_digit [of "m + 1"] by (intro split_at_last [of "CHR ''-''"])
    then have "''NaN'' = showNat (m + 1)" ..
    then have "CHR ''N'' \<in> set (showNat (m + 1))" by (metis list.set_intros(1))
    then show False using showNat_digits [of "CHR ''N''" "m + 1"] by simp
  qed
  show "d = d'"
  proof (cases d)
    case InvalidDate
    show ?thesis
    proof (cases d')
      case (LocalDate y' m')
      then have "''NaN-NaN'' = showInt y' @ ''-'' @ showNat (m' + 1)"
        using eq InvalidDate by (simp add: monthKey_def)
      then show ?thesis using nan by blast
    qed (simp add: InvalidDate)
  next
    case d: (LocalDate y m)
    show ?thesis
    proof (cases d')
      case InvalidDate
      then have "''NaN-NaN'' = showInt y @ ''-'' @ showNat (m + 1)"
        using eq d by (simp add: monthKey_def)
      then show ?thesis using nan by blast
    next
      case (LocalDate y' m')
      then have "showInt y @ CHR ''-'' # showNat (m + 1) = showInt y' @ CHR ''-'' # showNat (m' + 1)"
        using eq d by (simp add: monthKey_def)
      then have "showInt y = showInt y' \<and> showNat (m + 1) = showNat (m' + 1)"
        using dash_not_digit by (intro split_at_last [of "CHR ''-''"]) simp_all
      then show ?thesis
        using showInt_inj [of y y'] showNat_inj [of "m + 1" "m' + 1"] d LocalDate by simp
    qed
  qed
qed simp

lemma monthKey_own: "monthKey d \<notin> set objectPrototypeNames"
proof (cases d)
  case InvalidDate
  then show ?thesis by (simp add: monthKey_def objectPrototypeNames_def)
next
  case (LocalDate y m)
  let ?c = "last (showNat (m + 1))"
  have "?c \<in> set (showNat (m + 1))" using showNat_nonempty by (rule last_in_set)
  then have digit: "48 \<le> (of_char ?c :: nat) \<and> (of_char ?c :: nat) \<le> 57"
    by (rule showNat_digits)
  have "last (monthKey d) = ?c"
    using LocalDate showNat_nonempty [of "m + 1"] by (simp add: monthKey_def)
  moreover have "\<forall>n \<in> set objectPrototypeNames. \<not> (48 \<le> (of_char (last n) :: nat) \<and> (of_char (last n) :: nat) \<le> 57)"
    by (simp add: objectPrototypeNames_def)
  ultimately show ?thesis using digit by metis
qed

lemma getBranch_own: "getBranch r \<notin> set objectPrototypeNames"
proof -
  have "length (getBranch r) \<le> 3"
    by (simp add: getBranch_def substring_def split: option.splits)
  moreover have "\<forall>n \<in> set objectPrototypeNames. 3 < length n"
    by (simp add: objectPrototypeNames_def)
  ultimately show ?thesis by (metis not_le)
qed

lemma branchStep_upsert:
  "branchStep obj p =
     upsert (getBranch (offer_reg_no p))
       (noProps \<lparr> branch := Some (getBranch (offer_reg_no p)), total := 0, ctcValues := Some [] \<rparr>)
       (\<lambda>r. r \<lparr> total := total r + 1,
                ctcValues := map_option (\<lambda>vs. vs @ [numberOrZero (offer_ctc p)]) (ctcValues r) \<rparr>)
       obj"
  by (simp add: branchStep_def Let_def)

lemma branch_fold:
  "branch (foldl (\<lambda>r p. r \<lparr> total := total r + 1,
        ctcValues := map_option (\<lambda>vs. vs @ [numberOrZero (offer_ctc p)]) (ctcValues r) \<rparr>) r0 qs) =
   branch r0"
  by (induction qs rule: rev_induct) simp_all

lemma branchObject_field:
  assumes "(k, v) \<in> set (foldl branchStep [] ps)"
  shows "branch v = Some k"
proof -
  let ?G = "foldl branchStep [] ps"
  let ?qs = "filter (\<lambda>p. getBranch (offer_reg_no p) = k) ps"
  have d: "distinct (map fst ?G)"
    by (rule foldl_upsert_distinct [of branchStep, OF branchStep_upsert])
  have look: "map_of ?G k = Some v" using assms d by simp
  then have in_keys: "k \<in> (\<lambda>p. getBranch (offer_reg_no p)) ` set ps"
    using foldl_upsert_lookup [of branchStep, OF branchStep_upsert, of ps k]
    by (auto split: if_splits)
  then have "?qs \<noteq> []" by (auto simp: filter_empty_conv)
  then have "hd ?qs \<in> set ?qs" by (rule hd_in_set)
  then have key: "getBranch (offer_reg_no (hd ?qs)) = k" by simp
  show ?thesis
    using look in_keys key
    by (auto simp: foldl_upsert_lookup [of branchStep, OF branchStep_upsert] branch_fold getBranch_own)
qed

lemma branchStats_branch:
  "map branch (branchStats ps) = map branch (objectValues (foldl branchStep [] ps))"
  by (simp add: branchStats_def Let_def comp_def)

lemma branchStats_distinct: "distinct (map branch (branchStats ps))"
proof -
  let ?G = "foldl branchStep [] ps"
  have "distinct (map fst ?G)"
    by (rule foldl_upsert_distinct [of branchStep, OF branchStep_upsert])
  then have "distinct (map branch (objectValues ?G))"
    using branchObject_field by (rule distinct_objectValues_field)
  then show ?thesis by (simp only: branchStats_branch)
qed

lemma branchStats_branch_defined:
  assumes "d \<in> set (branchStats ps)"
  shows "branch d \<noteq> None"
proof -
  have "branch d \<in> set (map branch (objectValues (foldl branchStep [] ps)))"
    using assms by (simp flip: branchStats_branch)
  then obtain v where "v \<in> set (objectValues (foldl branchStep [] ps))" "branch d = branch v"
    by auto
  then obtain k where "(k, v) \<in> set (foldl branchStep [] ps)" "branch d = branch v"
    by (auto simp: set_objectValues)
  then show ?thesis using branchObject_field by fastforce
qed

lemma monthlyStep_upsert:
  "monthlyStep fmt obj p =
     upsert (monthKey (offer_created_at p))
       (noProps \<lparr> month := Some (fmt (offer_created_at p)), total := 0 \<rparr>)
       (\<lambda>r. r \<lparr> total := total r + 1 \<rparr>)
       obj"
  by (simp add: monthlyStep_def Let_def)

lemma monthly_fold:
  "foldl (\<lambda>r p. r \<lparr> total := total r + 1 \<rparr>) r0 qs = r0 \<lparr> total := total r0 + int (length qs) \<rparr>"
  by (induction qs rule: rev_induct) simp_all

lemma monthlyObject_keys:
  "distinct (map fst (monthlyObject fmt ps))"
  "fst ` set (monthlyObject fmt ps) = monthKey ` offer_created_at ` set ps"
  unfolding monthlyObject_def
  using foldl_upsert_distinct [of "monthlyStep fmt", OF monthlyStep_upsert, of ps]
    foldl_upsert_keys [of "monthlyStep fmt", OF monthlyStep_upsert, of ps]
  by (auto simp: image_image monthKey_own)

lemma monthlyTrends_length:
  "length (monthlyTrends fmt ps) = card (offer_created_at ` set ps)"
proof -
  have "length (monthlyTrends fmt ps) = length (map fst (monthlyObject fmt ps))"
    by (simp add: monthlyTrends_def length_objectValues)
  also have "\<dots> = card (set (map fst (monthlyObject fmt ps)))"
    using monthlyObject_keys(1) [of fmt ps] by (simp only: distinct_card)
  also have "\<dots> = card (monthKey ` offer_created_at ` set ps)"
    using monthlyObject_keys(2) [of fmt ps] by simp
  also have "\<dots> = card (offer_created_at ` set ps)"
    by (rule card_image) (simp add: inj_on_def monthKey_inj)
  finally show ?thesis .
qed

lemma monthlyObject_lookup:
  "map_of (monthlyObject fmt ps) (monthKey d) =
     (if d \<in> offer_created_at ` set ps
      then Some (noProps \<lparr> month := Some (fmt d),
                  total := int (length (filter (\<lambda>p. offer_created_at p = d) ps)) \<rparr>)
      else None)"
proof (cases "d \<in> offer_created_at ` set ps")
  case False
  then have "monthKey d \<notin> (\<lambda>p. monthKey (offer_created_at p)) ` set ps"
    by (auto simp: monthKey_inj)
  then show ?thesis
    using False foldl_upsert_lookup [of "monthlyStep fmt", OF monthlyStep_upsert, of ps "monthKey d"]
    by (simp add: monthlyObject_def)
next
  case True
  let ?qs = "filter (\<lambda>p. offer_created_at p = d) ps"
  have qs: "filter (\<lambda>p. monthKey (offer_created_at p) = monthKey d) ps = ?qs"
    by (simp add: monthKey_inj)
  have "?qs \<noteq> []" using True by (auto simp: filter_empty_conv)
  then have "hd ?qs \<in> set ?qs" by (rule hd_in_set)
  then have hd: "offer_created_at (hd ?qs) = d" by simp
  have "monthKey d \<in> (\<lambda>p. monthKey (offer_created_at p)) ` set ps"
    using True by auto
  then show ?thesis
    using True foldl_upsert_lookup [of "monthlyStep fmt", OF monthlyStep_upsert, of ps "monthKey d"]
    by (simp add: monthlyObject_def qs hd monthly_fold monthKey_own)
qed

text \<open>
  C8. The company names of the company aggregates are pairwise distinct, and so are the
  branch codes of the branch aggregates. The monthly trends are the values of an
  object whose keys are pairwise distinct and are the keys of the months of the
  offers; two dates have the same key only if they agree in year and month (or are
  both invalid), so the trends have one entry for each distinct year and month among
  the offers, and the entry of a month counts the offers of that month of that year.
\<close>

theorem grouping_keys_unique:
  "distinct (map company (companyStats fmt ps))
   \<and> distinct (map branch (branchStats ps))
   \<and> distinct (map fst (monthlyObject fmt ps))
   \<and> fst ` set (monthlyObject fmt ps) = monthKey ` offer_created_at ` set ps
   \<and> ((monthKey d = monthKey d') = (d = d'))
   \<and> length (monthlyTrends fmt ps) = card (offer_created_at ` set ps)
   \<and> map_of (monthlyObject fmt ps) (monthKey d) =
       (if d \<in> offer_created_at ` set ps
        then Some (noProps \<lparr> month := Some (fmt d),
                    total := int (length (filter (\<lambda>p. offer_created_at p = d) ps)) \<rparr>)
        else None)"
  using companyStats_distinct [of fmt ps] branchStats_distinct [of ps] monthlyObject_keys [of fmt ps]
    monthKey_inj [of d d'] monthlyTrends_length [of fmt ps] monthlyObject_lookup [of fmt ps d]
  by (simp only: simp_thms)

theorem grouping_keys_unique_witness:
  "monthKey (LocalDate 2024 0) \<noteq> monthKey (LocalDate 2025 0) \<and>
   length (monthlyTrends enUSLabel januaries) = 2 \<and>
   map_of (monthlyObject enUSLabel januaries) ''2024-1'' =
     Some (noProps \<lparr> month := Some ''Jan 2024'', total := 2 \<rparr>)"
proof -
  have k: "monthKey (LocalDate 2024 0) = ''2024-1''" by code_simp
  have "offer_created_at ` set januaries = {LocalDate 2024 0, LocalDate 2025 0}"
    by (auto simp: januaries_def)
  then have c: "card (offer_created_at ` set januaries) = 2"
    by simp
  have l: "enUSLabel (LocalDate 2024 0) = ''Jan 2024''" by code_simp
  have n: "int (length (filter (\<lambda>p. offer_created_at p = LocalDate 2024 0) januaries)) = 2"
    by (simp add: januaries_def)
  have i: "LocalDate 2024 0 \<in> offer_created_at ` set januaries"
    by (simp add: januaries_def)
  show ?thesis
    using grouping_keys_unique [of enUSLabel januaries "LocalDate 2024 0" "LocalDate 2025 0"]
    by (simp add: k c l n i)
qed

section \<open>Rounding to doubles: proofs\<close>

lemma roundEven_bounds: "\<lfloor>y\<rfloor> \<le> roundEven y" "roundEven y \<le> \<lceil>y\<rceil>"
proof -
  show "\<lfloor>y\<rfloor> \<le> roundEven y" by (simp add: roundEven_def Let_def)
  have "\<lceil>y\<rceil> = \<lfloor>y\<rfloor> + 1" if "y - of_int \<lfloor>y\<rfloor> \<noteq> 0"
    using that by (simp add: ceiling_altdef)
  then show "roundEven y \<le> \<lceil>y\<rceil>"
    using floor_le_ceiling [of y] by (auto simp: roundEven_def Let_def)
qed

lemma roundEven_of_int: "roundEven (of_int k) = k"
  by (simp add: roundEven_def)

lemma expoUp_bounds: "e \<le> expoUp n x e \<and> expoUp n x e \<le> e + int n"
proof (induction n arbitrary: x e)
  case 0
  show ?case by simp
next
  case (Suc n)
  from Suc [of "e + 1" "x / 2"] show ?case by simp
qed

lemma expoDown_bounds: "e - int n \<le> expoDown n x e \<and> expoDown n x e \<le> e"
proof (induction n arbitrary: x e)
  case 0
  show ?case by simp
next
  case (Suc n)
  from Suc [of "e - 1" "2 * x"] show ?case by simp
qed

lemma expo_bounds: "- 1022 \<le> expo x" "expo x \<le> 1023"
  using expoUp_bounds [of 0 1023 "\<bar>x\<bar>"] expoDown_bounds [of 0 1022 "\<bar>x\<bar>"]
  by (auto simp: expo_def)

lemma powi_le_scaled: "1 \<le> x \<Longrightarrow> 2 powi e \<le> x * (2::real) powi e"
proof -
  assume "1 \<le> x"
  moreover have "0 < (2::real) powi e" by simp
  ultimately have "1 * 2 powi e \<le> x * 2 powi e" by (intro mult_right_mono) simp_all
  then show ?thesis by simp
qed

lemma expoUp_le: "0 < x \<Longrightarrow> 1 \<le> x \<Longrightarrow> 2 powi (expoUp n x e) \<le> x * 2 powi e"
proof (induction n arbitrary: x e)
  case 0
  then show ?case using powi_le_scaled [of x e] by simp
next
  case (Suc n)
  show ?case
  proof (cases "x < 2")
    case True
    have "2 powi e \<le> x * 2 powi e" using Suc.prems by (intro powi_le_scaled)
    with True show ?thesis by simp
  next
    case False
    then have "2 powi (expoUp n (x / 2) (e + 1)) \<le> (x / 2) * 2 powi (e + 1)"
      using Suc.prems by (intro Suc.IH) simp_all
    also have "(x / 2) * 2 powi (e + 1) = x * 2 powi e"
      by (simp add: power_int_add)
    finally show ?thesis using False by simp
  qed
qed

lemma expoDown_le:
  "0 < x \<Longrightarrow> expoDown n x e \<noteq> e - int n \<Longrightarrow> 2 powi (expoDown n x e) \<le> x * 2 powi e"
proof (induction n arbitrary: x e)
  case 0
  then show ?case by simp
next
  case (Suc n)
  show ?case
  proof (cases "1 \<le> x")
    case True
    have "2 powi e \<le> x * 2 powi e" using True by (intro powi_le_scaled)
    with True show ?thesis by simp
  next
    case False
    then have ne: "expoDown n (2 * x) (e - 1) \<noteq> (e - 1) - int n"
      using Suc.prems(2) by simp
    have "2 powi (expoDown n (2 * x) (e - 1)) \<le> (2 * x) * 2 powi (e - 1)"
      using Suc.prems(1) ne by (intro Suc.IH) simp_all
    also have "(2 * x) * 2 powi (e - 1) = x * 2 powi e"
      by (simp add: power_int_diff)
    finally show ?thesis using False by simp
  qed
qed

lemma expo_cases: "expo x = - 1022 \<or> 2 powi (expo x) \<le> \<bar>x\<bar>"
proof (cases "x = 0")
  case True
  then show ?thesis by (simp add: expo_def)
next
  case False
  then have pos: "0 < \<bar>x\<bar>" by simp
  show ?thesis
  proof (cases "1 \<le> \<bar>x\<bar>")
    case True
    then show ?thesis using expoUp_le [OF pos True, of 1023 0] False by (simp add: expo_def)
  next
    case small: False
    show ?thesis
    proof (cases "expoDown 1022 \<bar>x\<bar> 0 = - 1022")
      case True
      then show ?thesis using small False by (simp add: expo_def)
    next
      case ne: False
      then have "2 powi (expoDown 1022 \<bar>x\<bar> 0) \<le> \<bar>x\<bar> * 2 powi 0"
        using pos by (intro expoDown_le) simp_all
      then show ?thesis using small False by (simp add: expo_def)
    qed
  qed
qed

lemma roundEven_zero: "roundEven 0 = 0"
  by (simp add: roundEven_def)

lemma fl_zero: "fl 0 = Fin 0"
  unfolding fl_def Let_def by (simp add: roundEven_zero expo_def)

lemma isDouble_zero: "isDouble 0"
  by (simp add: isDouble_def fl_zero)

lemma fl_grid:
  assumes "fl x = Fin r"
  shows "\<exists>k::int. r = of_int k * 2 powi (- 1074)"
proof -
  let ?n = "nat (expo x + 1022)"
  have e: "expo x - 52 = int ?n + (- 1074)" using expo_bounds(1) [of x] by simp
  have "(2::real) powi (int ?n + (- 1074)) = 2 powi (int ?n) * 2 powi (- 1074)"
    by (rule power_int_add) simp
  also have "(2::real) powi (int ?n) = 2 ^ ?n" by (rule power_int_of_nat)
  finally have q: "(2::real) powi (expo x - 52) = 2 ^ ?n * 2 powi (- 1074)"
    by (simp only: e)
  from assms have "r = of_int (roundEven (x / 2 powi (expo x - 52))) * 2 powi (expo x - 52)"
    by (simp add: fl_def Let_def split: if_splits del: power_int_numeral)
  then have "r = of_int (roundEven (x / 2 powi (expo x - 52)) * 2 ^ ?n) * 2 powi (- 1074)"
    unfolding q by simp
  then show ?thesis by blast
qed

lemma fl_positive:
  assumes "x = of_int k * 2 powi (- 1074)" and "0 < x"
  shows "fl x = PosInf \<or> (\<exists>r. 0 < r \<and> fl x = Fin r)"
proof -
  let ?q = "(2::real) powi (expo x - 52)"
  have qpos: "0 < ?q" by simp
  have "1 \<le> x / ?q"
  proof -
    from expo_cases [of x] show ?thesis
    proof
      assume e: "expo x = - 1022"
      have "0 < real_of_int k" using assms by (simp add: zero_less_mult_iff del: power_int_numeral)
      then have "1 \<le> real_of_int k" by simp
      moreover have "x / ?q = real_of_int k" using assms(1) e by simp
      ultimately show ?thesis by simp
    next
      assume "2 powi (expo x) \<le> \<bar>x\<bar>"
      then have "2 powi (expo x) \<le> x" using assms(2) by simp
      then have "2 powi (expo x) / ?q \<le> x / ?q" using qpos by (intro divide_right_mono) simp_all
      moreover have "2 powi (expo x) / ?q = 2 powi 52"
        by (simp add: power_int_diff del: power_int_numeral)
      moreover have "(1::real) \<le> 2 powi 52" by simp
      ultimately show ?thesis by linarith
    qed
  qed
  then have "1 \<le> \<lfloor>x / ?q\<rfloor>" by simp
  then have "1 \<le> roundEven (x / ?q)" using roundEven_bounds(1) [of "x / ?q"] by linarith
  then have "0 < real_of_int (roundEven (x / ?q))" by simp
  then have "0 < real_of_int (roundEven (x / ?q)) * ?q" using qpos by (intro mult_pos_pos)
  then show ?thesis using assms(2) unfolding fl_def Let_def by (simp del: power_int_numeral)
qed

lemma fl_negative:
  assumes "x = of_int k * 2 powi (- 1074)" and "x < 0"
  shows "fl x = NegInf \<or> (\<exists>r. r < 0 \<and> fl x = Fin r)"
proof -
  let ?q = "(2::real) powi (expo x - 52)"
  have qpos: "0 < ?q" by simp
  have "x / ?q \<le> - 1"
  proof -
    from expo_cases [of x] show ?thesis
    proof
      assume e: "expo x = - 1022"
      have "real_of_int k < 0" using assms by (simp add: mult_less_0_iff del: power_int_numeral)
      then have "real_of_int k \<le> - 1" by simp
      moreover have "x / ?q = real_of_int k" using assms(1) e by simp
      ultimately show ?thesis by simp
    next
      assume "2 powi (expo x) \<le> \<bar>x\<bar>"
      then have "2 powi (expo x) \<le> - x" using assms(2) by simp
      then have "2 powi (expo x) / ?q \<le> (- x) / ?q" using qpos by (intro divide_right_mono) simp_all
      moreover have "2 powi (expo x) / ?q = 2 powi 52"
        by (simp add: power_int_diff del: power_int_numeral)
      moreover have "(1::real) \<le> 2 powi 52" by simp
      ultimately show ?thesis by simp
    qed
  qed
  then have "\<lceil>x / ?q\<rceil> \<le> - 1" by (simp add: ceiling_le_iff)
  then have "roundEven (x / ?q) \<le> - 1" using roundEven_bounds(2) [of "x / ?q"] by linarith
  then have "real_of_int (roundEven (x / ?q)) < 0" by simp
  then have "real_of_int (roundEven (x / ?q)) * ?q < 0" using qpos by (intro mult_neg_pos)
  then show ?thesis using assms(2) unfolding fl_def Let_def by (simp del: power_int_numeral)
qed

lemma sortBefore_jsSub_grid:
  assumes a: "a = of_int ka * 2 powi (- 1074)" and b: "b = of_int kb * 2 powi (- 1074)"
  shows "sortBefore (jsSub (Fin a) (Fin b)) = (a \<le> b)"
proof -
  have g: "a - b = of_int (ka - kb) * 2 powi (- 1074)"
    unfolding a b by (simp add: algebra_simps del: power_int_numeral)
  have s: "jsSub (Fin a) (Fin b) = fl (a - b)" by (simp add: jsSub_def jsNeg_def)
  consider "a - b = 0" | "0 < a - b" | "a - b < 0" by linarith
  then show ?thesis
  proof cases
    case 1
    then show ?thesis unfolding s by (simp add: fl_zero sortBefore_def)
  next
    case 2
    from fl_positive [OF g 2] show ?thesis unfolding s using 2 by (auto simp: sortBefore_def)
  next
    case 3
    from fl_negative [OF g 3] show ?thesis unfolding s using 3 by (auto simp: sortBefore_def)
  qed
qed

lemma isDouble_grid: "isDouble a \<Longrightarrow> \<exists>k::int. a = of_int k * 2 powi (- 1074)"
  unfolding isDouble_def by (rule fl_grid)

lemma of_int_grid: "\<exists>k::int. (of_int n :: real) = of_int k * 2 powi (- 1074)"
proof -
  have "(2::real) powi (int 1074 + (- 1074)) = 2 powi (int 1074) * 2 powi (- 1074)"
    by (rule power_int_add) simp
  also have "(2::real) powi (int 1074) = 2 ^ 1074" by (rule power_int_of_nat)
  finally have "(2::real) ^ 1074 * 2 powi (- 1074) = 1" by simp
  then have "(of_int n :: real) = of_int n * (2 ^ 1074 * 2 powi (- 1074))" by simp
  also have "\<dots> = of_int (n * 2 ^ 1074) * 2 powi (- 1074)"
    by (simp only: of_int_mult of_int_power of_int_numeral mult.assoc)
  finally show ?thesis by blast
qed

lemma sortBefore_jsSub:
  assumes "isDouble a" and "isDouble b"
  shows "sortBefore (jsSub (Fin a) (Fin b)) = (a \<le> b)"
proof -
  from assms obtain ka kb :: int
    where "a = of_int ka * 2 powi (- 1074)" and "b = of_int kb * 2 powi (- 1074)"
    using isDouble_grid by blast
  then show ?thesis by (rule sortBefore_jsSub_grid)
qed

lemma sortBefore_jsSub_of_int:
  "sortBefore (jsSub (Fin (of_int a)) (Fin (of_int b))) = (a \<le> b)"
proof -
  obtain ka kb :: int
    where "(of_int a :: real) = of_int ka * 2 powi (- 1074)"
      and "(of_int b :: real) = of_int kb * 2 powi (- 1074)"
    using of_int_grid by blast
  then have "sortBefore (jsSub (Fin (of_int a)) (Fin (of_int b))) = ((of_int a :: real) \<le> of_int b)"
    by (rule sortBefore_jsSub_grid)
  then show ?thesis by simp
qed

section \<open>Statistics: proofs\<close>

lemma insort_cmp_key:
  assumes "\<And>b. b \<in> set ys \<Longrightarrow> sortBefore (cmp x b) = (f x \<le> f b)"
  shows "insort_cmp cmp x ys = insort_key f x ys"
  using assms by (induction ys) simp_all

lemma js_sort_key:
  assumes "\<And>a b. a \<in> set xs \<Longrightarrow> b \<in> set xs \<Longrightarrow> sortBefore (cmp a b) = (f a \<le> f b)"
  shows "js_sort cmp xs = sort_key f xs"
  using assms
proof (induction xs)
  case Nil
  then show ?case by (simp add: js_sort_def)
next
  case (Cons x xs)
  have "js_sort cmp xs = sort_key f xs" by (rule Cons.IH) (simp add: Cons.prems)
  then have "js_sort cmp (x # xs) = insort_cmp cmp x (sort_key f xs)"
    by (simp add: js_sort_def)
  also have "\<dots> = insort_key f x (sort_key f xs)"
    by (rule insort_cmp_key) (simp add: Cons.prems)
  finally show ?case by simp
qed














section \<open>Filtering and sorting: proofs\<close>

lemma includes_str_sublist: "includes_str s t = sublist t s"
  by (induction s) (simp_all add: sublist_Cons_right)

lemma filterSearch_defined:
  assumes "\<forall>d \<in> set dat. key d \<noteq> None"
  shows "filterSearch lower key s dat =
    Inr (filter (\<lambda>d. case key d of None \<Rightarrow> False
                      | Some k \<Rightarrow> sublist (lower s) (lower k)) dat)"
  using assms by (induction dat) (auto simp: includes_str_sublist)

lemma js_sort_all_ties:
  assumes "\<forall>a \<in> set xs. \<forall>b \<in> set xs. sortBefore (cmp a b)"
  shows "js_sort cmp xs = xs"
  using assms
proof (induction xs)
  case Nil
  then show ?case by (simp add: js_sort_def)
next
  case (Cons x xs)
  then have "js_sort cmp xs = xs" by simp
  then have "js_sort cmp (x # xs) = insort_cmp cmp x xs" by (simp add: js_sort_def)
  also have "\<dots> = x # xs" using Cons.prems by (cases xs) simp_all
  finally show ?case .
qed

lemma orZero_sortKey:
  "orZero (avg d) = sortKey ''avg'' d"
  "orZero (median d) = sortKey ''median'' d"
  by (simp_all add: orZero_def sortKey_def split: option.splits jsnum.splits)

lemma sortKey_not_NaN: "sortKey mode d \<noteq> NaN"
  by (simp add: sortKey_def split: option.splits jsnum.splits)

lemma sortKey_grid:
  assumes "doubleFields d" and "sortKey mode d = Fin r"
  shows "\<exists>k::int. r = of_int k * 2 powi (- 1074)"
proof (cases "mode = ''students''")
  case True
  then have "r = of_int (total d)" using assms(2) by (simp add: sortKey_def)
  then show ?thesis using of_int_grid by simp
next
  case False
  have zero: "\<exists>k::int. (0::real) = of_int k * 2 powi (- 1074)"
    using isDouble_grid [OF isDouble_zero] .
  show ?thesis
  proof (cases "mode = ''avg''")
    case True
    then show ?thesis
      using assms zero isDouble_grid [of r]
      by (auto simp: sortKey_def doubleFields_def split: option.splits jsnum.splits)
  next
    case other: False
    then show ?thesis
      using assms zero isDouble_grid [of r] False
      by (auto simp: sortKey_def doubleFields_def split: option.splits jsnum.splits)
  qed
qed

lemma sortBefore_rank:
  assumes "x \<noteq> NaN" and "y \<noteq> NaN"
    and "\<And>r. x = Fin r \<Longrightarrow> \<exists>k::int. r = of_int k * 2 powi (- 1074)"
    and "\<And>r. y = Fin r \<Longrightarrow> \<exists>k::int. r = of_int k * 2 powi (- 1074)"
  shows "sortBefore (jsSub y x) = (descendingRank x \<le> descendingRank y)"
proof (cases x)
  case NaN
  then show ?thesis using assms(1) by simp
next
  case NegInf
  then show ?thesis using assms(2)
    by (cases y) (simp_all add: jsSub_def jsNeg_def sortBefore_def descendingRank_def)
next
  case PosInf
  then show ?thesis using assms(2)
    by (cases y) (simp_all add: jsSub_def jsNeg_def sortBefore_def descendingRank_def)
next
  case x: (Fin a)
  show ?thesis
  proof (cases y)
    case (Fin b)
    obtain ka kb :: int
      where "b = of_int kb * 2 powi (- 1074)" and "a = of_int ka * 2 powi (- 1074)"
      using assms(3) [OF x] assms(4) [OF Fin] by blast
    then have "sortBefore (jsSub (Fin b) (Fin a)) = (b \<le> a)" by (rule sortBefore_jsSub_grid)
    then show ?thesis using x Fin by (simp add: descendingRank_def)
  qed (use assms(2) x in \<open>simp_all add: jsSub_def jsNeg_def sortBefore_def descendingRank_def\<close>)
qed

lemma jsLe_rank:
  assumes "x \<noteq> NaN" and "y \<noteq> NaN"
  shows "jsLe y x = (descendingRank x \<le> descendingRank y)"
  using assms by (cases x; cases y) (simp_all add: descendingRank_def)

lemma descendingRank_inj:
  assumes "x \<noteq> NaN" and "y \<noteq> NaN"
  shows "(descendingRank x = descendingRank y) = (x = y)"
  using assms by (cases x; cases y) (simp_all add: descendingRank_def)

lemma js_sort_by_key:
  assumes "\<forall>d \<in> set xs. doubleFields d"
  shows "js_sort (\<lambda>a b. jsSub (sortKey mode b) (sortKey mode a)) xs =
         sort_key (\<lambda>d. descendingRank (sortKey mode d)) xs"
proof (rule js_sort_key)
  fix a b assume "a \<in> set xs" "b \<in> set xs"
  then have "doubleFields a" "doubleFields b" using assms by simp_all
  then show "sortBefore (jsSub (sortKey mode b) (sortKey mode a)) =
      (descendingRank (sortKey mode a) \<le> descendingRank (sortKey mode b))"
    by (intro sortBefore_rank sortKey_not_NaN sortKey_grid)
qed

lemma sort_key_descending_props:
  "mset (sort_key (\<lambda>d. descendingRank (sortKey mode d)) xs) = mset xs"
  "sorted_wrt (\<lambda>a b. jsLe (sortKey mode b) (sortKey mode a))
     (sort_key (\<lambda>d. descendingRank (sortKey mode d)) xs)"
  "filter (\<lambda>d. sortKey mode d = v) (sort_key (\<lambda>d. descendingRank (sortKey mode d)) xs) =
   filter (\<lambda>d. sortKey mode d = v) xs"
proof -
  let ?f = "\<lambda>d. descendingRank (sortKey mode d)"
  show "mset (sort_key ?f xs) = mset xs" by simp
  have "sorted (map ?f (sort_key ?f xs))" by (rule sorted_sort_key)
  then have "sorted_wrt (\<lambda>a b. ?f a \<le> ?f b) (sort_key ?f xs)" by (simp add: sorted_map)
  moreover have "(?f a \<le> ?f b) = jsLe (sortKey mode b) (sortKey mode a)" for a b
    by (rule jsLe_rank [symmetric]) (rule sortKey_not_NaN)+
  ultimately show "sorted_wrt (\<lambda>a b. jsLe (sortKey mode b) (sortKey mode a)) (sort_key ?f xs)"
    by simp
  show "filter (\<lambda>d. sortKey mode d = v) (sort_key ?f xs) = filter (\<lambda>d. sortKey mode d = v) xs"
  proof (cases "v = NaN")
    case True
    then show ?thesis by (simp add: sortKey_not_NaN)
  next
    case False
    then have "(sortKey mode d = v) = (?f d = descendingRank v)" for d
      by (rule descendingRank_inj [OF sortKey_not_NaN, symmetric])
    moreover have "filter (\<lambda>d. ?f d = descendingRank v) (sort_key ?f xs) =
        filter (\<lambda>d. ?f d = descendingRank v) xs"
      by (rule sort_key_stable)
    ultimately show ?thesis by simp
  qed
qed

lemma filterAndSort_filtered:
  assumes "\<forall>d \<in> set dat. keyField type d \<noteq> None"
  shows "filterAndSort lower st dat type =
    (let filtered = filter (keptBy lower st type) dat
     in if sortBy st \<in> {''students'', ''avg'', ''median''}
        then Inr (js_sort (\<lambda>a b. jsSub (sortKey (sortBy st) b) (sortKey (sortBy st) a)) filtered)
        else Inr filtered)"
proof -
  let ?key = "\<lambda>d. if type = ''company'' then company d else branch d"
  let ?hit = "\<lambda>d. search st = [] \<or>
                   (case keyField type d of None \<Rightarrow> False
                    | Some k \<Rightarrow> sublist (lower (search st)) (lower k))"
  have key: "?key = keyField type" by (simp add: keyField_def fun_eq_iff)
  have one: "(if search st \<noteq> [] then filterSearch lower ?key (search st) dat else Inr dat) =
             Inr (filter ?hit dat)"
    using filterSearch_defined [of dat "keyField type" lower "search st"] assms
    by (simp add: key)
  have two: "(if type = ''company'' \<and> selectedRange st \<noteq> ''all''
              then filter (\<lambda>d. ctcRange d = Some (selectedRange st)) (filter ?hit dat)
              else filter ?hit dat) = filter (keptBy lower st type) dat"
    by (auto simp: keptBy_def intro: filter_cong)
  have sk: "(\<lambda>a b. jsSub (Fin (of_int (total b))) (Fin (of_int (total a)))) =
            (\<lambda>a b. jsSub (sortKey ''students'' b) (sortKey ''students'' a))"
    by (simp add: sortKey_def)
  show ?thesis
    unfolding filterAndSort_def one sk orZero_sortKey
    by (simp only: sum.case Let_def two) auto
qed

lemma companySummary_fields:
  "company (companySummary fmt ps k) = Some k"
  "avg (companySummary fmt ps k) = None"
  "median (companySummary fmt ps k) = None"
  by (simp_all add: companySummary_def Let_def noProps_def)

text \<open>
  C7. On a collection whose records all have the key field and have doubles as their
  finite averages and medians, and for each of the three sort modes the page offers,
  \<open>filterAndSort\<close> returns a sequence with exactly the records the filter of the spec
  keeps (the search on the key field, both put in lower case by the engine, then the
  range filter for company aggregates), ordered descending by the count, the average
  or the median according to the mode, an absent or NaN average or median counting as
  0, and records with equal keys in their input order. The records \<open>companyStats\<close> and
  \<open>branchStats\<close> produce all have their key field. Searching "eng" in the branch
  aggregates ENG (5) and SCI (9) returns ENG only, whenever the engine lowers ENG to
  eng and SCI to sci and leaves eng; without a search, sorting by count returns SCI
  before ENG.
\<close>

theorem filterAndSort_filters_then_sorts:
  "((\<forall>d \<in> set dat. keyField type d \<noteq> None \<and> doubleFields d)
      \<and> sortBy st \<in> {''students'', ''avg'', ''median''} \<longrightarrow>
      (\<exists>r. filterAndSort lower st dat type = Inr r \<and>
           mset r = mset (filter (keptBy lower st type) dat) \<and>
           sorted_wrt (\<lambda>a b. jsLe (sortKey (sortBy st) b) (sortKey (sortBy st) a)) r \<and>
           (\<forall>v. filter (\<lambda>d. sortKey (sortBy st) d = v) r =
                filter (\<lambda>d. sortKey (sortBy st) d = v) (filter (keptBy lower st type) dat))))
   \<and> (\<forall>d \<in> set (companyStats fmt ps). keyField ''company'' d \<noteq> None)
   \<and> (\<forall>d \<in> set (branchStats ps). keyField ''branch'' d \<noteq> None)
   \<and> (lower ''ENG'' = ''eng'' \<and> lower ''SCI'' = ''sci'' \<and> lower ''eng'' = ''eng'' \<longrightarrow>
        filterAndSort lower \<lparr> search = ''eng'', sortBy = ''students'', selectedRange = ''all'' \<rparr>
          engSci ''branch'' =
        Inr [noProps \<lparr> branch := Some ''ENG'', total := 5 \<rparr>])
   \<and> filterAndSort lower \<lparr> search = '''', sortBy = ''students'', selectedRange = ''all'' \<rparr>
        engSci ''branch'' =
       Inr [noProps \<lparr> branch := Some ''SCI'', total := 9 \<rparr>, noProps \<lparr> branch := Some ''ENG'', total := 5 \<rparr>]"
proof (intro conjI impI)
  assume a: "(\<forall>d \<in> set dat. keyField type d \<noteq> None \<and> doubleFields d)
      \<and> sortBy st \<in> {''students'', ''avg'', ''median''}"
  let ?xs = "filter (keptBy lower st type) dat" and ?k = "sortKey (sortBy st)"
  let ?f = "\<lambda>d. descendingRank (?k d)"
  have keys: "\<forall>d \<in> set dat. keyField type d \<noteq> None" using a by simp
  have "\<forall>d \<in> set ?xs. doubleFields d" using a by simp
  then have "js_sort (\<lambda>a b. jsSub (?k b) (?k a)) ?xs = sort_key ?f ?xs"
    by (rule js_sort_by_key)
  then have r: "filterAndSort lower st dat type = Inr (sort_key ?f ?xs)"
    using a by (simp add: filterAndSort_filtered [OF keys] Let_def)
  show "\<exists>r. filterAndSort lower st dat type = Inr r \<and>
           mset r = mset ?xs \<and>
           sorted_wrt (\<lambda>a b. jsLe (?k b) (?k a)) r \<and>
           (\<forall>v. filter (\<lambda>d. ?k d = v) r = filter (\<lambda>d. ?k d = v) ?xs)"
  proof (intro exI conjI allI)
    show "filterAndSort lower st dat type = Inr (sort_key ?f ?xs)" by (rule r)
    show "mset (sort_key ?f ?xs) = mset ?xs"
      by (rule sort_key_descending_props(1))
    show "sorted_wrt (\<lambda>a b. jsLe (?k b) (?k a)) (sort_key ?f ?xs)"
      by (rule sort_key_descending_props(2))
    show "filter (\<lambda>d. ?k d = v) (sort_key ?f ?xs) = filter (\<lambda>d. ?k d = v) ?xs" for v
      by (rule sort_key_descending_props(3))
  qed
next
  show "\<forall>d \<in> set (companyStats fmt ps). keyField ''company'' d \<noteq> None"
    by (auto simp: companyStats_set companySummary_fields keyField_def)
next
  show "\<forall>d \<in> set (branchStats ps). keyField ''branch'' d \<noteq> None"
    using branchStats_branch_defined by (simp add: keyField_def)
next
  assume l: "lower ''ENG'' = ''eng'' \<and> lower ''SCI'' = ''sci'' \<and> lower ''eng'' = ''eng''"
  then show "filterAndSort lower \<lparr> search = ''eng'', sortBy = ''students'', selectedRange = ''all'' \<rparr>
          engSci ''branch'' =
        Inr [noProps \<lparr> branch := Some ''ENG'', total := 5 \<rparr>]"
    by (simp add: filterAndSort_def engSci_def js_sort_def)
next
  have "\<not> sortBefore (jsSub (Fin 9) (Fin 5))"
    using sortBefore_jsSub_of_int [of 9 5] by simp
  then show "filterAndSort lower \<lparr> search = '''', sortBy = ''students'', selectedRange = ''all'' \<rparr>
        engSci ''branch'' =
       Inr [noProps \<lparr> branch := Some ''SCI'', total := 9 \<rparr>, noProps \<lparr> branch := Some ''ENG'', total := 5 \<rparr>]"
    by (simp add: filterAndSort_def engSci_def js_sort_def noProps_def)
qed

theorem filterAndSort_filters_then_sorts_witness:
  "keyField ''branch'' (threeBranches ! 0) = Some ''BCE'' \<and>
   keyField ''branch'' (threeBranches ! 1) = Some ''BIT'' \<and>
   keyField ''branch'' (threeBranches ! 2) = Some ''BEC'' \<and>
   doubleFields (threeBranches ! 0) \<and> doubleFields (threeBranches ! 1) \<and>
   doubleFields (threeBranches ! 2) \<and>
   filter (keptBy toLowerCaseLatin1 \<lparr> search = ''b'', sortBy = ''avg'', selectedRange = ''all'' \<rparr> ''branch'')
     threeBranches = threeBranches \<and>
   (\<exists>r. filterAndSort toLowerCaseLatin1 \<lparr> search = ''b'', sortBy = ''avg'', selectedRange = ''all'' \<rparr>
          threeBranches ''branch'' = Inr r \<and>
        mset r = mset threeBranches \<and>
        sorted_wrt (\<lambda>a b. jsLe (sortKey ''avg'' b) (sortKey ''avg'' a)) r \<and>
        filter (\<lambda>d. sortKey ''avg'' d = Fin 4) r = [threeBranches ! 0, threeBranches ! 2]) \<and>
   filterAndSort toLowerCaseLatin1 \<lparr> search = ''b'', sortBy = ''avg'', selectedRange = ''all'' \<rparr>
     threeBranches ''branch'' = Inr [threeBranches ! 1, threeBranches ! 0, threeBranches ! 2] \<and>
   toLowerCaseLatin1 ''ENG'' = ''eng'' \<and> toLowerCaseLatin1 ''SCI'' = ''sci'' \<and>
   toLowerCaseLatin1 ''eng'' = ''eng'' \<and>
   filterAndSort toLowerCaseLatin1 \<lparr> search = ''eng'', sortBy = ''students'', selectedRange = ''all'' \<rparr>
     engSci ''branch'' = Inr [noProps \<lparr> branch := Some ''ENG'', total := 5 \<rparr>]"
proof -
  let ?st = "\<lparr> search = ''b'', sortBy = ''avg'', selectedRange = ''all'' \<rparr>"
  have k: "keyField ''branch'' (threeBranches ! 0) = Some ''BCE''"
    "keyField ''branch'' (threeBranches ! 1) = Some ''BIT''"
    "keyField ''branch'' (threeBranches ! 2) = Some ''BEC''"
    by (simp_all add: keyField_def threeBranches_def noProps_def)
  have d: "isDouble 4" "isDouble 5" "isDouble 12" by code_simp+
  have df: "doubleFields (threeBranches ! 0)" "doubleFields (threeBranches ! 1)"
    "doubleFields (threeBranches ! 2)"
    by (simp_all add: doubleFields_def threeBranches_def noProps_def d)
  have all: "\<forall>d \<in> set threeBranches. keyField ''branch'' d \<noteq> None \<and> doubleFields d"
    using k df by (simp add: threeBranches_def)
  have f: "filter (keptBy toLowerCaseLatin1 ?st ''branch'') threeBranches = threeBranches"
    by code_simp
  have v: "filter (\<lambda>d. sortKey ''avg'' d = Fin 4) threeBranches = [threeBranches ! 0, threeBranches ! 2]"
    by (simp add: sortKey_def threeBranches_def noProps_def)
  have e: "filterAndSort toLowerCaseLatin1 ?st threeBranches ''branch'' =
      Inr [threeBranches ! 1, threeBranches ! 0, threeBranches ! 2]"
    by code_simp
  have l: "toLowerCaseLatin1 ''ENG'' = ''eng''" "toLowerCaseLatin1 ''SCI'' = ''sci''"
    "toLowerCaseLatin1 ''eng'' = ''eng''"
    by code_simp+
  note main = filterAndSort_filters_then_sorts
    [of threeBranches "''branch''" ?st toLowerCaseLatin1 enUSLabel "[]"]
  have hyp: "(\<forall>d \<in> set threeBranches. keyField ''branch'' d \<noteq> None \<and> doubleFields d)
      \<and> sortBy ?st \<in> {''students'', ''avg'', ''median''}"
    using all by simp
  have "\<exists>r. filterAndSort toLowerCaseLatin1 ?st threeBranches ''branch'' = Inr r \<and>
      mset r = mset (filter (keptBy toLowerCaseLatin1 ?st ''branch'') threeBranches) \<and>
      sorted_wrt (\<lambda>a b. jsLe (sortKey (sortBy ?st) b) (sortKey (sortBy ?st) a)) r \<and>
      (\<forall>v. filter (\<lambda>d. sortKey (sortBy ?st) d = v) r =
           filter (\<lambda>d. sortKey (sortBy ?st) d = v)
             (filter (keptBy toLowerCaseLatin1 ?st ''branch'') threeBranches))"
    by (rule mp [OF conjunct1 [OF main] hyp])
  then obtain r where r: "filterAndSort toLowerCaseLatin1 ?st threeBranches ''branch'' = Inr r"
    "mset r = mset threeBranches"
    "sorted_wrt (\<lambda>a b. jsLe (sortKey ''avg'' b) (sortKey ''avg'' a)) r"
    "filter (\<lambda>d. sortKey ''avg'' d = Fin 4) r = filter (\<lambda>d. sortKey ''avg'' d = Fin 4) threeBranches"
    unfolding f by auto
  have ex: "\<exists>r. filterAndSort toLowerCaseLatin1 ?st threeBranches ''branch'' = Inr r \<and>
        mset r = mset threeBranches \<and>
        sorted_wrt (\<lambda>a b. jsLe (sortKey ''avg'' b) (sortKey ''avg'' a)) r \<and>
        filter (\<lambda>d. sortKey ''avg'' d = Fin 4) r = [threeBranches ! 0, threeBranches ! 2]"
    using r unfolding v by blast
  have eng: "filterAndSort toLowerCaseLatin1
      \<lparr> search = ''eng'', sortBy = ''students'', selectedRange = ''all'' \<rparr> engSci ''branch'' =
      Inr [noProps \<lparr> branch := Some ''ENG'', total := 5 \<rparr>]"
    using main l by blast
  show ?thesis
    using k df f ex e l eng by (intro conjI)
qed

text \<open>
  C10. With the sort mode by average or by median, \<open>filterAndSort\<close> on company
  aggregates, whose records have a company name and neither average nor median,
  returns the records the filter keeps in their original relative order: every
  comparison is a tie. This holds in particular for the output of \<open>companyStats\<close>.
\<close>

theorem filterAndSort_company_by_avg_or_median:
  assumes "sortBy st = ''avg'' \<or> sortBy st = ''median''"
  shows "((\<forall>d \<in> set dat. company d \<noteq> None \<and> avg d = None \<and> median d = None) \<longrightarrow>
            filterAndSort lower st dat ''company'' = Inr (filter (keptBy lower st ''company'') dat))
         \<and> filterAndSort lower st (companyStats fmt ps) ''company'' =
             Inr (filter (keptBy lower st ''company'') (companyStats fmt ps))"
proof -
  have tie: "sortBefore (jsSub (Fin 0) (Fin 0))"
    using sortBefore_jsSub [OF isDouble_zero isDouble_zero] by simp
  have gen: "filterAndSort lower st dat ''company'' = Inr (filter (keptBy lower st ''company'') dat)"
    if d: "\<forall>d \<in> set dat. company d \<noteq> None \<and> avg d = None \<and> median d = None" for dat
  proof -
    let ?xs = "filter (keptBy lower st ''company'') dat"
    have k: "\<forall>d \<in> set dat. keyField ''company'' d \<noteq> None"
      using d by (simp add: keyField_def)
    have "\<forall>a \<in> set ?xs. \<forall>b \<in> set ?xs. sortBefore (jsSub (orZero (avg b)) (orZero (avg a)))"
      using d tie by (simp add: orZero_def)
    then have by_avg: "js_sort (\<lambda>a b. jsSub (orZero (avg b)) (orZero (avg a))) ?xs = ?xs"
      by (rule js_sort_all_ties)
    have "\<forall>a \<in> set ?xs. \<forall>b \<in> set ?xs. sortBefore (jsSub (orZero (median b)) (orZero (median a)))"
      using d tie by (simp add: orZero_def)
    then have by_median: "js_sort (\<lambda>a b. jsSub (orZero (median b)) (orZero (median a))) ?xs = ?xs"
      by (rule js_sort_all_ties)
    from assms show ?thesis
    proof
      assume "sortBy st = ''avg''"
      then show ?thesis
        using by_avg by (simp add: filterAndSort_filtered [OF k] Let_def flip: orZero_sortKey)
    next
      assume "sortBy st = ''median''"
      then show ?thesis
        using by_median by (simp add: filterAndSort_filtered [OF k] Let_def flip: orZero_sortKey)
    qed
  qed
  have "\<forall>d \<in> set (companyStats fmt ps). company d \<noteq> None \<and> avg d = None \<and> median d = None"
    by (auto simp: companyStats_set companySummary_fields)
  from gen [OF this] gen show ?thesis by blast
qed

theorem filterAndSort_company_by_avg_or_median_witness:
  "map company (companyStats enUSLabel oneThenTwo) = [Some ''Acme'', Some ''Bolt''] \<and>
   map total (companyStats enUSLabel oneThenTwo) = [1, 2] \<and>
   filterAndSort toLowerCaseLatin1 \<lparr> search = [], sortBy = ''avg'', selectedRange = ''all'' \<rparr>
     (companyStats enUSLabel oneThenTwo) ''company'' = Inr (companyStats enUSLabel oneThenTwo) \<and>
   filterAndSort toLowerCaseLatin1 \<lparr> search = [], sortBy = ''median'', selectedRange = ''all'' \<rparr>
     (companyStats enUSLabel oneThenTwo) ''company'' = Inr (companyStats enUSLabel oneThenTwo)"
proof -
  let ?a = "\<lparr> search = [], sortBy = ''avg'', selectedRange = ''all'' \<rparr>"
  let ?m = "\<lparr> search = [], sortBy = ''median'', selectedRange = ''all'' \<rparr>"
  have c: "map company (companyStats enUSLabel oneThenTwo) = [Some ''Acme'', Some ''Bolt'']"
    "map total (companyStats enUSLabel oneThenTwo) = [1, 2]"
    by code_simp+
  have f: "filter (keptBy toLowerCaseLatin1 ?a ''company'') (companyStats enUSLabel oneThenTwo) =
           companyStats enUSLabel oneThenTwo"
    "filter (keptBy toLowerCaseLatin1 ?m ''company'') (companyStats enUSLabel oneThenTwo) =
           companyStats enUSLabel oneThenTwo"
    by code_simp+
  show ?thesis
    using filterAndSort_company_by_avg_or_median
        [where st = ?a and fmt = enUSLabel and ps = oneThenTwo and lower = toLowerCaseLatin1]
      filterAndSort_company_by_avg_or_median
        [where st = ?m and fmt = enUSLabel and ps = oneThenTwo and lower = toLowerCaseLatin1]
    by (simp add: c f)
qed

end
